theory Spec2Isabelle
  imports Main "HOL-Library.Word"
begin

section \<open>AlarmClock.h: the object, its threads and their control points\<close>

text \<open>
  The class \<open>AlarmClock<Duration>\<close> owns a background thread that runs
  \<open>AlarmClockInterruptableThread\<close>; any other thread may call \<open>Expired\<close>, \<open>Reset\<close>,
  the accessors and the destructor. All flags are \<open>std::atomic\<close> with the default
  (sequentially consistent) ordering, so an execution is an interleaving of the threads'
  atomic accesses. The model is a record of the object's members plus one control point per
  thread, and a step function per source function; a schedule (a list of events) picks the
  thread that moves next.
\<close>

type_synonym u32 = "32 word"

text \<open>The template parameter \<open>Duration\<close>: one of the three duration types the class names.\<close>

datatype Duration = Microseconds | Milliseconds | Seconds

text \<open>Owner of \<open>mMutex\<close>.\<close>

datatype tid = Worker | Caller nat

text \<open>
  \<open>mSleepFunction\<close>: either the bound member \<open>SleepUs\<close> (installed by the constructor
  when \<open>funcPtr\<close> is null) or the injected callable, taken as a function of its argument.
\<close>

datatype sleep_function = BoundSleepUs | Injected "u32 \<Rightarrow> u32"

text \<open>Control points inside \<open>SleepUs\<close> (lines 108-116).\<close>

datatype sleep_pc =
    LoopTest    \<comment> \<open>line 109: \<open>i < microseconds(t)\<close>\<close>
  | SleepFor    \<comment> \<open>line 110: \<open>sleep_for(microseconds(1))\<close>\<close>
  | LoadReset   \<comment> \<open>line 111: the load of \<open>mReset\<close>\<close>
  | LoadExit    \<comment> \<open>line 111: the load of \<open>mExit\<close>, then \<open>i++\<close>\<close>

text \<open>Control points of the worker thread (lines 72-96).\<close>

datatype wpc =
    W_Call                     \<comment> \<open>line 75: about to call \<open>mSleepFunction\<close>\<close>
  | W_SleepUs sleep_pc u32 u32 \<comment> \<open>inside \<open>SleepUs(t)\<close> with loop counter \<open>i\<close>\<close>
  | W_Ret u32                  \<comment> \<open>line 77: \<open>retVal\<close> is known\<close>
  | W_Lock                     \<comment> \<open>line 84: acquiring \<open>mMutex\<close>\<close>
  | W_Check                    \<comment> \<open>line 86: \<open>if (!mReset)\<close>, mutex held\<close>
  | W_Parked                   \<comment> \<open>line 92: blocked in \<open>mCondition.wait\<close>, mutex released\<close>
  | W_Woken                    \<comment> \<open>line 92: notified, re-acquiring \<open>mMutex\<close>\<close>
  | W_Clear                    \<comment> \<open>line 94: \<open>mReset.store(false)\<close>, mutex held\<close>
  | W_Unlock                   \<comment> \<open>line 95: end of the loop body, \<open>lck\<close> is released\<close>
  | W_While                    \<comment> \<open>line 95: \<open>while (!mExit)\<close>\<close>
  | W_Done                     \<comment> \<open>the thread function has returned\<close>
  | W_Undefined                \<comment> \<open>signed overflow of \<open>i++\<close> in \<open>SleepUs\<close>\<close>

text \<open>Control points of a calling thread.\<close>

datatype cpc =
    Idle
  | R_Lock       \<comment> \<open>line 46: acquiring \<open>mMutex\<close>\<close>
  | R_SetReset   \<comment> \<open>line 47\<close>
  | R_Zero       \<comment> \<open>line 53\<close>
  | R_Notify     \<comment> \<open>line 54\<close>
  | R_Unlock     \<comment> \<open>line 55: \<open>lck\<close> is released\<close>
  | D_SetExit    \<comment> \<open>line 37\<close>
  | D_Stop       \<comment> \<open>line 103: the condition of \<open>StopBackgroundThread\<close>\<close>
  | D_Join       \<comment> \<open>line 104: blocked in \<open>mTimerThread.join()\<close>\<close>
  | Destroyed    \<comment> \<open>the destructor has returned\<close>

record alarm_clock =
  mExpired :: u32
  mSleptTime :: u32
  mExit :: bool
  mReset :: bool
  kSleepTime :: u32
  kSleepTimeMsCount :: u32
  kSleepTimeUsCount :: u32
  mSleepFunction :: sleep_function
  wpc :: wpc                 \<comment> \<open>\<open>mTimerThread\<close>: where the worker is\<close>
  joinable :: bool           \<comment> \<open>\<open>mTimerThread.joinable()\<close>\<close>
  mMutex :: "tid option"     \<comment> \<open>the owner of \<open>mMutex\<close>\<close>
  cpc :: "nat \<Rightarrow> cpc"        \<comment> \<open>where each calling thread is\<close>
  slept_us :: nat            \<comment> \<open>ghost: how many times \<open>sleep_for(1us)\<close> has run\<close>

section \<open>Construction\<close>

text \<open>
  \<open>duration_cast\<close> of \<open>Duration(sleepDuration)\<close>, then \<open>count()\<close> narrowed to
  \<open>unsigned int\<close>.
\<close>

definition ConvertToMillisecondsCount :: "Duration \<Rightarrow> u32 \<Rightarrow> u32" where
  "ConvertToMillisecondsCount d t =
     (case d of
        Microseconds \<Rightarrow> of_nat (unat t div 1000)
      | Milliseconds \<Rightarrow> t
      | Seconds \<Rightarrow> of_nat (unat t * 1000))"

definition ConvertToMicrosecondsCount :: "Duration \<Rightarrow> u32 \<Rightarrow> u32" where
  "ConvertToMicrosecondsCount d t =
     (case d of
        Microseconds \<Rightarrow> t
      | Milliseconds \<Rightarrow> of_nat (unat t * 1000)
      | Seconds \<Rightarrow> of_nat (unat t * 1000000))"

text \<open>The constructor (lines 22-34); the worker starts at the top of its loop.\<close>

definition AlarmClock :: "Duration \<Rightarrow> u32 \<Rightarrow> (u32 \<Rightarrow> u32) option \<Rightarrow> alarm_clock" where
  "AlarmClock d sleepDuration funcPtr =
     \<lparr> mExpired = 0,
       mSleptTime = 0,
       mExit = False,
       mReset = False,
       kSleepTime = sleepDuration,
       kSleepTimeMsCount = ConvertToMillisecondsCount d sleepDuration,
       kSleepTimeUsCount = ConvertToMicrosecondsCount d sleepDuration,
       mSleepFunction = (case funcPtr of None \<Rightarrow> BoundSleepUs | Some f \<Rightarrow> Injected f),
       wpc = W_Call,
       joinable = True,
       mMutex = None,
       cpc = (\<lambda>_. Idle),
       slept_us = 0 \<rparr>"

section \<open>Accessors\<close>

text \<open>
  Each accessor returns a value and the object, which it does not change. \<open>Expired\<close>
  converts the loaded count to \<open>bool\<close>; \<open>SleepTimeUs\<close> and \<open>SleepTimeMs\<close> return the
  stored 32 bits, which their \<open>int\<close> return type reads signed.
\<close>

definition Expired :: "alarm_clock \<Rightarrow> bool \<times> alarm_clock" where
  "Expired s = (mExpired s \<noteq> 0, s)"

definition SleptTime :: "alarm_clock \<Rightarrow> u32 \<times> alarm_clock" where
  "SleptTime s = (mSleptTime s, s)"

definition SleepTimeUs :: "alarm_clock \<Rightarrow> u32 \<times> alarm_clock" where
  "SleepTimeUs s = (kSleepTimeUsCount s, s)"

definition SleepTimeMs :: "alarm_clock \<Rightarrow> u32 \<times> alarm_clock" where
  "SleepTimeMs s = (kSleepTimeMsCount s, s)"

section \<open>The worker\<close>

text \<open>
  One step of the worker inside \<open>SleepUs(t)\<close>. The counter \<open>i\<close> is an \<open>int\<close>
  compared with the 64-bit count of \<open>microseconds(t)\<close>: it is read signed, \<open>t\<close> unsigned,
  and incrementing \<open>i\<close> at \<open>INT_MAX\<close> is undefined. The two loads of line 111 are separate
  steps; the increment is part of the step that finds \<open>mExit\<close> false.
\<close>

definition SleepUs :: "sleep_pc \<Rightarrow> u32 \<Rightarrow> u32 \<Rightarrow> alarm_clock \<Rightarrow> alarm_clock" where
  "SleepUs p t i s =
     (case p of
        LoopTest \<Rightarrow>
          if sint i < uint t then s\<lparr>wpc := W_SleepUs SleepFor t i\<rparr>
          else s\<lparr>wpc := W_Ret 0\<rparr>
      | SleepFor \<Rightarrow> s\<lparr>slept_us := slept_us s + 1, wpc := W_SleepUs LoadReset t i\<rparr>
      | LoadReset \<Rightarrow>
          if mReset s then s\<lparr>wpc := W_Ret 1\<rparr>
          else s\<lparr>wpc := W_SleepUs LoadExit t i\<rparr>
      | LoadExit \<Rightarrow>
          if mExit s then s\<lparr>wpc := W_Ret 1\<rparr>
          else if sint i = 2147483647 then s\<lparr>wpc := W_Undefined\<rparr>
          else s\<lparr>wpc := W_SleepUs LoopTest t (i + 1)\<rparr>)"

text \<open>
  One step of \<open>AlarmClockInterruptableThread\<close>; \<open>None\<close> when the worker cannot move
  (blocked on the mutex, parked on the condition variable, or finished).
\<close>

definition AlarmClockInterruptableThread :: "alarm_clock \<Rightarrow> alarm_clock option" where
  "AlarmClockInterruptableThread s =
     (case wpc s of
        W_Call \<Rightarrow>
          (case mSleepFunction s of
             BoundSleepUs \<Rightarrow> Some (s\<lparr>wpc := W_SleepUs LoopTest (kSleepTimeUsCount s) 1\<rparr>)
           | Injected f \<Rightarrow> Some (s\<lparr>wpc := W_Ret (f (kSleepTimeUsCount s))\<rparr>))
      | W_SleepUs p t i \<Rightarrow> Some (SleepUs p t i s)
      | W_Ret retVal \<Rightarrow>
          if retVal = 0 then Some (s\<lparr>mExpired := mExpired s + 1, wpc := W_Lock\<rparr>)
          else if mExit s then Some (s\<lparr>wpc := W_Done\<rparr>)
          else Some (s\<lparr>wpc := W_Lock\<rparr>)
      | W_Lock \<Rightarrow>
          if mMutex s = None then Some (s\<lparr>mMutex := Some Worker, wpc := W_Check\<rparr>)
          else None
      | W_Check \<Rightarrow>
          if \<not> mReset s then Some (s\<lparr>mMutex := None, wpc := W_Parked\<rparr>)
          else Some (s\<lparr>wpc := W_Clear\<rparr>)
      | W_Parked \<Rightarrow> None
      | W_Woken \<Rightarrow>
          if mMutex s = None then Some (s\<lparr>mMutex := Some Worker, wpc := W_Clear\<rparr>)
          else None
      | W_Clear \<Rightarrow> Some (s\<lparr>mReset := False, wpc := W_Unlock\<rparr>)
      | W_Unlock \<Rightarrow> Some (s\<lparr>mMutex := None, wpc := W_While\<rparr>)
      | W_While \<Rightarrow>
          if \<not> mExit s then Some (s\<lparr>wpc := W_Call\<rparr>)
          else Some (s\<lparr>wpc := W_Done\<rparr>)
      | W_Done \<Rightarrow> None
      | W_Undefined \<Rightarrow> None)"

section \<open>Reset and teardown\<close>

text \<open>\<open>mCondition.notify_all()\<close>: the only thread that ever waits is the worker.\<close>

definition notify_all :: "alarm_clock \<Rightarrow> alarm_clock" where
  "notify_all s = (if wpc s = W_Parked then s\<lparr>wpc := W_Woken\<rparr> else s)"

text \<open>One step of caller \<open>c\<close> inside \<open>Reset\<close> (lines 45-55).\<close>

definition Reset :: "nat \<Rightarrow> alarm_clock \<Rightarrow> alarm_clock option" where
  "Reset c s =
     (case cpc s c of
        R_Lock \<Rightarrow>
          if mMutex s = None
          then Some (s\<lparr>mMutex := Some (Caller c), cpc := (cpc s)(c := R_SetReset)\<rparr>)
          else None
      | R_SetReset \<Rightarrow> Some (s\<lparr>mReset := True, cpc := (cpc s)(c := R_Zero)\<rparr>)
      | R_Zero \<Rightarrow> Some (s\<lparr>mExpired := 0, cpc := (cpc s)(c := R_Notify)\<rparr>)
      | R_Notify \<Rightarrow> Some ((notify_all s)\<lparr>cpc := (cpc s)(c := R_Unlock)\<rparr>)
      | R_Unlock \<Rightarrow> Some (s\<lparr>mMutex := None, cpc := (cpc s)(c := Idle)\<rparr>)
      | _ \<Rightarrow> None)"

text \<open>
  One step of caller \<open>c\<close> inside \<open>StopBackgroundThread\<close> (lines 98-106): the condition,
  then \<open>join\<close>, which returns only once the worker's function has returned.
\<close>

definition StopBackgroundThread :: "nat \<Rightarrow> alarm_clock \<Rightarrow> alarm_clock option" where
  "StopBackgroundThread c s =
     (case cpc s c of
        D_Stop \<Rightarrow>
          if joinable s \<and> mExit s then Some (s\<lparr>cpc := (cpc s)(c := D_Join)\<rparr>)
          else Some (s\<lparr>cpc := (cpc s)(c := Destroyed)\<rparr>)
      | D_Join \<Rightarrow>
          if wpc s = W_Done
          then Some (s\<lparr>joinable := False, cpc := (cpc s)(c := Destroyed)\<rparr>)
          else None
      | _ \<Rightarrow> None)"

text \<open>One step of caller \<open>c\<close> inside the destructor (lines 36-39).\<close>

definition Destructor :: "nat \<Rightarrow> alarm_clock \<Rightarrow> alarm_clock option" where
  "Destructor c s =
     (case cpc s c of
        D_SetExit \<Rightarrow> Some (s\<lparr>mExit := True, cpc := (cpc s)(c := D_Stop)\<rparr>)
      | D_Stop \<Rightarrow> StopBackgroundThread c s
      | D_Join \<Rightarrow> StopBackgroundThread c s
      | _ \<Rightarrow> None)"

section \<open>Schedules\<close>

datatype api = CallExpired | CallSleptTime | CallSleepTimeUs | CallSleepTimeMs
  | CallReset | CallDestructor

datatype event =
    WorkerStep          \<comment> \<open>the worker executes its next atomic action\<close>
  | Invoke nat api      \<comment> \<open>an idle caller enters a member function\<close>
  | Advance nat         \<comment> \<open>a caller executes its next atomic action\<close>
  | SpuriousWakeup      \<comment> \<open>\<open>condition_variable::wait\<close> may return unnotified\<close>

definition invoke :: "nat \<Rightarrow> api \<Rightarrow> alarm_clock \<Rightarrow> alarm_clock option" where
  "invoke c a s =
     (if cpc s c \<noteq> Idle then None
      else case a of
        CallExpired \<Rightarrow> Some (snd (Expired s))
      | CallSleptTime \<Rightarrow> Some (snd (SleptTime s))
      | CallSleepTimeUs \<Rightarrow> Some (snd (SleepTimeUs s))
      | CallSleepTimeMs \<Rightarrow> Some (snd (SleepTimeMs s))
      | CallReset \<Rightarrow> Some (s\<lparr>cpc := (cpc s)(c := R_Lock)\<rparr>)
      | CallDestructor \<Rightarrow> Some (s\<lparr>cpc := (cpc s)(c := D_SetExit)\<rparr>))"

definition advance :: "nat \<Rightarrow> alarm_clock \<Rightarrow> alarm_clock option" where
  "advance c s =
     (case cpc s c of
        Idle \<Rightarrow> None
      | Destroyed \<Rightarrow> None
      | D_SetExit \<Rightarrow> Destructor c s
      | D_Stop \<Rightarrow> Destructor c s
      | D_Join \<Rightarrow> Destructor c s
      | _ \<Rightarrow> Reset c s)"

definition spurious :: "alarm_clock \<Rightarrow> alarm_clock option" where
  "spurious s = (if wpc s = W_Parked then Some (s\<lparr>wpc := W_Woken\<rparr>) else None)"

fun exec :: "event \<Rightarrow> alarm_clock \<Rightarrow> alarm_clock option" where
  "exec WorkerStep s = AlarmClockInterruptableThread s"
| "exec (Invoke c a) s = invoke c a s"
| "exec (Advance c) s = advance c s"
| "exec SpuriousWakeup s = spurious s"

text \<open>An event whose thread cannot move leaves the state as it is.\<close>

definition after :: "event \<Rightarrow> alarm_clock \<Rightarrow> alarm_clock" where
  "after e s = (case exec e s of None \<Rightarrow> s | Some s' \<Rightarrow> s')"

primrec run :: "event list \<Rightarrow> alarm_clock \<Rightarrow> alarm_clock" where
  "run [] s = s"
| "run (e # es) s = run es (after e s)"

text \<open>No event of the schedule, at the state where it is taken, satisfies \<open>P\<close>.\<close>

primrec never :: "(event \<Rightarrow> alarm_clock \<Rightarrow> bool) \<Rightarrow> event list \<Rightarrow> alarm_clock \<Rightarrow> bool" where
  "never P [] s = True"
| "never P (e # es) s = (\<not> P e s \<and> never P es (after e s))"

section \<open>Invariants of the locking protocol\<close>

text \<open>The control points at which a caller, or the worker, holds \<open>mMutex\<close>.\<close>

fun in_reset_body :: "cpc \<Rightarrow> bool" where
  "in_reset_body R_SetReset = True"
| "in_reset_body R_Zero = True"
| "in_reset_body R_Notify = True"
| "in_reset_body R_Unlock = True"
| "in_reset_body _ = False"

fun in_locked_region :: "wpc \<Rightarrow> bool" where
  "in_locked_region W_Check = True"
| "in_locked_region W_Clear = True"
| "in_locked_region W_Unlock = True"
| "in_locked_region _ = False"

definition mutex_inv :: "alarm_clock \<Rightarrow> bool" where
  "mutex_inv s =
     ((\<forall>c. mMutex s \<noteq> Some (Caller c) \<longrightarrow> \<not> in_reset_body (cpc s c)) \<and>
      (mMutex s \<noteq> Some Worker \<longrightarrow> \<not> in_locked_region (wpc s)))"

text \<open>
  The control points a worker with an injected strategy that never returns 0 can be at:
  never inside \<open>SleepUs\<close>, never at line 77 with \<open>retVal = 0\<close>.
\<close>

fun interrupted_only :: "wpc \<Rightarrow> bool" where
  "interrupted_only (W_SleepUs p t i) = False"
| "interrupted_only (W_Ret r) = (r \<noteq> 0)"
| "interrupted_only _ = True"

text \<open>The worker executes line 79 (a natural expiry).\<close>

definition worker_expiry :: "event \<Rightarrow> alarm_clock \<Rightarrow> bool" where
  "worker_expiry e s = (e = WorkerStep \<and> wpc s = W_Ret 0)"

text \<open>The worker executes line 94 (it consumes a reset).\<close>

definition worker_clear :: "event \<Rightarrow> alarm_clock \<Rightarrow> bool" where
  "worker_clear e s = (e = WorkerStep \<and> wpc s = W_Clear)"

text \<open>The control points of \<open>Reset\<close> after the store at line 47.\<close>

fun reset_stored :: "cpc \<Rightarrow> bool" where
  "reset_stored R_Zero = True"
| "reset_stored R_Notify = True"
| "reset_stored R_Unlock = True"
| "reset_stored _ = False"

text \<open>The owner of the mutex is a caller that has yet to execute line 54.\<close>

definition notifier_pending :: "alarm_clock \<Rightarrow> bool" where
  "notifier_pending s =
     (case mMutex s of
        Some (Caller c) \<Rightarrow> cpc s c = R_Zero \<or> cpc s c = R_Notify
      | _ \<Rightarrow> False)"

text \<open>
  A step of a thread that is already running: the worker (\<open>None\<close>) or a caller inside a
  member function. No new call and no spurious wake-up.
\<close>

definition thread_event :: "nat option \<Rightarrow> event" where
  "thread_event t = (case t of None \<Rightarrow> WorkerStep | Some c \<Rightarrow> Advance c)"

section \<open>The steps of each thread, case by case\<close>

lemmas step_defs = AlarmClockInterruptableThread_def SleepUs_def Reset_def
  StopBackgroundThread_def Destructor_def invoke_def advance_def spurious_def notify_all_def
  after_def Expired_def SleptTime_def SleepTimeUs_def SleepTimeMs_def

lemmas init_defs = AlarmClock_def ConvertToMicrosecondsCount_def ConvertToMillisecondsCount_def

lemma run_append: "run (es @ fs) s = run fs (run es s)"
  by (induction es arbitrary: s) simp_all

lemma after_cases: "after e s = s \<or> exec e s = Some (after e s)"
  by (simp add: after_def split: option.splits)

lemma notify_all_fields [simp]:
  "mExpired (notify_all s) = mExpired s"
  "mSleptTime (notify_all s) = mSleptTime s"
  "mExit (notify_all s) = mExit s"
  "mReset (notify_all s) = mReset s"
  "kSleepTime (notify_all s) = kSleepTime s"
  "kSleepTimeMsCount (notify_all s) = kSleepTimeMsCount s"
  "kSleepTimeUsCount (notify_all s) = kSleepTimeUsCount s"
  "mSleepFunction (notify_all s) = mSleepFunction s"
  "joinable (notify_all s) = joinable s"
  "mMutex (notify_all s) = mMutex s"
  "cpc (notify_all s) = cpc s"
  "slept_us (notify_all s) = slept_us s"
  "wpc (notify_all s) = (if wpc s = W_Parked then W_Woken else wpc s)"
  by (simp_all add: notify_all_def)

lemma advance_disj:
  "advance c s = Some s' \<Longrightarrow>
     (cpc s c = R_Lock \<and> mMutex s = None \<and>
        s' = s\<lparr>mMutex := Some (Caller c), cpc := (cpc s)(c := R_SetReset)\<rparr>)
   \<or> (cpc s c = R_SetReset \<and> s' = s\<lparr>mReset := True, cpc := (cpc s)(c := R_Zero)\<rparr>)
   \<or> (cpc s c = R_Zero \<and> s' = s\<lparr>mExpired := 0, cpc := (cpc s)(c := R_Notify)\<rparr>)
   \<or> (cpc s c = R_Notify \<and> s' = (notify_all s)\<lparr>cpc := (cpc s)(c := R_Unlock)\<rparr>)
   \<or> (cpc s c = R_Unlock \<and> s' = s\<lparr>mMutex := None, cpc := (cpc s)(c := Idle)\<rparr>)
   \<or> (cpc s c = D_SetExit \<and> s' = s\<lparr>mExit := True, cpc := (cpc s)(c := D_Stop)\<rparr>)
   \<or> (cpc s c = D_Stop \<and> joinable s \<and> mExit s \<and> s' = s\<lparr>cpc := (cpc s)(c := D_Join)\<rparr>)
   \<or> (cpc s c = D_Stop \<and> \<not> (joinable s \<and> mExit s) \<and>
        s' = s\<lparr>cpc := (cpc s)(c := Destroyed)\<rparr>)
   \<or> (cpc s c = D_Join \<and> wpc s = W_Done \<and>
        s' = s\<lparr>joinable := False, cpc := (cpc s)(c := Destroyed)\<rparr>)"
  by (cases "cpc s c")
     (auto simp add: advance_def Reset_def Destructor_def StopBackgroundThread_def
        split: if_splits)

lemma advance_cases:
  assumes "advance c s = Some s'"
  obtains
    (lock) "cpc s c = R_Lock" "mMutex s = None"
      "s' = s\<lparr>mMutex := Some (Caller c), cpc := (cpc s)(c := R_SetReset)\<rparr>"
  | (setreset) "cpc s c = R_SetReset" "s' = s\<lparr>mReset := True, cpc := (cpc s)(c := R_Zero)\<rparr>"
  | (zero) "cpc s c = R_Zero" "s' = s\<lparr>mExpired := 0, cpc := (cpc s)(c := R_Notify)\<rparr>"
  | (notify) "cpc s c = R_Notify" "s' = (notify_all s)\<lparr>cpc := (cpc s)(c := R_Unlock)\<rparr>"
  | (unlock) "cpc s c = R_Unlock" "s' = s\<lparr>mMutex := None, cpc := (cpc s)(c := Idle)\<rparr>"
  | (setexit) "cpc s c = D_SetExit" "s' = s\<lparr>mExit := True, cpc := (cpc s)(c := D_Stop)\<rparr>"
  | (stop_join) "cpc s c = D_Stop" "joinable s" "mExit s" "s' = s\<lparr>cpc := (cpc s)(c := D_Join)\<rparr>"
  | (stop_skip) "cpc s c = D_Stop" "\<not> (joinable s \<and> mExit s)"
      "s' = s\<lparr>cpc := (cpc s)(c := Destroyed)\<rparr>"
  | (join) "cpc s c = D_Join" "wpc s = W_Done"
      "s' = s\<lparr>joinable := False, cpc := (cpc s)(c := Destroyed)\<rparr>"
proof -
  from advance_disj [OF assms] show thesis
    by (elim disjE exE conjE) (rule that; assumption)+
qed

lemma invoke_disj:
  "invoke c a s = Some s' \<Longrightarrow>
    cpc s c = Idle \<and>
    (s' = s \<or> (a = CallReset \<and> s' = s\<lparr>cpc := (cpc s)(c := R_Lock)\<rparr>)
      \<or> (a = CallDestructor \<and> s' = s\<lparr>cpc := (cpc s)(c := D_SetExit)\<rparr>))"
  by (cases a)
     (auto simp add: invoke_def Expired_def SleptTime_def SleepTimeUs_def SleepTimeMs_def
        split: if_splits)

lemma invoke_cases:
  assumes "invoke c a s = Some s'"
  obtains
    (query) "cpc s c = Idle" "s' = s"
  | (reset) "cpc s c = Idle" "a = CallReset" "s' = s\<lparr>cpc := (cpc s)(c := R_Lock)\<rparr>"
  | (destroy) "cpc s c = Idle" "a = CallDestructor" "s' = s\<lparr>cpc := (cpc s)(c := D_SetExit)\<rparr>"
  using invoke_disj [OF assms] by blast

lemma SleepUs_fields [simp]:
  "mExpired (SleepUs p t i s) = mExpired s"
  "mSleptTime (SleepUs p t i s) = mSleptTime s"
  "mExit (SleepUs p t i s) = mExit s"
  "mReset (SleepUs p t i s) = mReset s"
  "kSleepTime (SleepUs p t i s) = kSleepTime s"
  "kSleepTimeMsCount (SleepUs p t i s) = kSleepTimeMsCount s"
  "kSleepTimeUsCount (SleepUs p t i s) = kSleepTimeUsCount s"
  "mSleepFunction (SleepUs p t i s) = mSleepFunction s"
  "joinable (SleepUs p t i s) = joinable s"
  "mMutex (SleepUs p t i s) = mMutex s"
  "cpc (SleepUs p t i s) = cpc s"
  by (cases p; simp add: SleepUs_def)+

lemma SleepUs_wpc:
  "(\<exists>q j. wpc (SleepUs p t i s) = W_SleepUs q t j) \<or> wpc (SleepUs p t i s) = W_Ret 0 \<or>
   wpc (SleepUs p t i s) = W_Ret 1 \<or> wpc (SleepUs p t i s) = W_Undefined"
  by (cases p) (simp_all add: SleepUs_def)

lemma SleepUs_wpc_neq [simp]:
  "wpc (SleepUs p t i s) \<noteq> W_Call" "wpc (SleepUs p t i s) \<noteq> W_Lock"
  "wpc (SleepUs p t i s) \<noteq> W_Check" "wpc (SleepUs p t i s) \<noteq> W_Parked"
  "wpc (SleepUs p t i s) \<noteq> W_Woken" "wpc (SleepUs p t i s) \<noteq> W_Clear"
  "wpc (SleepUs p t i s) \<noteq> W_Unlock" "wpc (SleepUs p t i s) \<noteq> W_While"
  "wpc (SleepUs p t i s) \<noteq> W_Done"
  using SleepUs_wpc [of p t i s] by auto

lemma worker_disj:
  "AlarmClockInterruptableThread s = Some s' \<Longrightarrow>
     (wpc s = W_Call \<and> mSleepFunction s = BoundSleepUs \<and>
        s' = s\<lparr>wpc := W_SleepUs LoopTest (kSleepTimeUsCount s) 1\<rparr>)
   \<or> (\<exists>f. wpc s = W_Call \<and> mSleepFunction s = Injected f \<and>
        s' = s\<lparr>wpc := W_Ret (f (kSleepTimeUsCount s))\<rparr>)
   \<or> (\<exists>p t i. wpc s = W_SleepUs p t i \<and> s' = SleepUs p t i s)
   \<or> (wpc s = W_Ret 0 \<and> s' = s\<lparr>mExpired := mExpired s + 1, wpc := W_Lock\<rparr>)
   \<or> (\<exists>r. wpc s = W_Ret r \<and> r \<noteq> 0 \<and> mExit s \<and> s' = s\<lparr>wpc := W_Done\<rparr>)
   \<or> (\<exists>r. wpc s = W_Ret r \<and> r \<noteq> 0 \<and> \<not> mExit s \<and> s' = s\<lparr>wpc := W_Lock\<rparr>)
   \<or> (wpc s = W_Lock \<and> mMutex s = None \<and> s' = s\<lparr>mMutex := Some Worker, wpc := W_Check\<rparr>)
   \<or> (wpc s = W_Check \<and> \<not> mReset s \<and> s' = s\<lparr>mMutex := None, wpc := W_Parked\<rparr>)
   \<or> (wpc s = W_Check \<and> mReset s \<and> s' = s\<lparr>wpc := W_Clear\<rparr>)
   \<or> (wpc s = W_Woken \<and> mMutex s = None \<and> s' = s\<lparr>mMutex := Some Worker, wpc := W_Clear\<rparr>)
   \<or> (wpc s = W_Clear \<and> s' = s\<lparr>mReset := False, wpc := W_Unlock\<rparr>)
   \<or> (wpc s = W_Unlock \<and> s' = s\<lparr>mMutex := None, wpc := W_While\<rparr>)
   \<or> (wpc s = W_While \<and> \<not> mExit s \<and> s' = s\<lparr>wpc := W_Call\<rparr>)
   \<or> (wpc s = W_While \<and> mExit s \<and> s' = s\<lparr>wpc := W_Done\<rparr>)"
  by (cases "wpc s")
     (auto simp add: AlarmClockInterruptableThread_def
        split: if_splits sleep_function.splits)

lemma worker_cases:
  assumes "AlarmClockInterruptableThread s = Some s'"
  obtains
    (call_bound) "wpc s = W_Call" "mSleepFunction s = BoundSleepUs"
      "s' = s\<lparr>wpc := W_SleepUs LoopTest (kSleepTimeUsCount s) 1\<rparr>"
  | (call_injected) f where "wpc s = W_Call" "mSleepFunction s = Injected f"
      "s' = s\<lparr>wpc := W_Ret (f (kSleepTimeUsCount s))\<rparr>"
  | (sleeping) p t i where "wpc s = W_SleepUs p t i" "s' = SleepUs p t i s"
  | (completed) "wpc s = W_Ret 0" "s' = s\<lparr>mExpired := mExpired s + 1, wpc := W_Lock\<rparr>"
  | (break) r where "wpc s = W_Ret r" "r \<noteq> 0" "mExit s" "s' = s\<lparr>wpc := W_Done\<rparr>"
  | (interrupted) r where "wpc s = W_Ret r" "r \<noteq> 0" "\<not> mExit s" "s' = s\<lparr>wpc := W_Lock\<rparr>"
  | (lock) "wpc s = W_Lock" "mMutex s = None" "s' = s\<lparr>mMutex := Some Worker, wpc := W_Check\<rparr>"
  | (park) "wpc s = W_Check" "\<not> mReset s" "s' = s\<lparr>mMutex := None, wpc := W_Parked\<rparr>"
  | (skip_wait) "wpc s = W_Check" "mReset s" "s' = s\<lparr>wpc := W_Clear\<rparr>"
  | (relock) "wpc s = W_Woken" "mMutex s = None" "s' = s\<lparr>mMutex := Some Worker, wpc := W_Clear\<rparr>"
  | (clear) "wpc s = W_Clear" "s' = s\<lparr>mReset := False, wpc := W_Unlock\<rparr>"
  | (unlock) "wpc s = W_Unlock" "s' = s\<lparr>mMutex := None, wpc := W_While\<rparr>"
  | (loop) "wpc s = W_While" "\<not> mExit s" "s' = s\<lparr>wpc := W_Call\<rparr>"
  | (exit) "wpc s = W_While" "mExit s" "s' = s\<lparr>wpc := W_Done\<rparr>"
proof -
  from worker_disj [OF assms] show thesis
    by (elim disjE exE conjE) (rule that; assumption)+
qed

lemma spurious_cases:
  assumes "spurious s = Some s'"
  obtains "wpc s = W_Parked" "s' = s\<lparr>wpc := W_Woken\<rparr>"
  using assms by (auto simp add: spurious_def split: if_splits)

section \<open>Mutual exclusion\<close>

lemma mutex_inv_init: "mutex_inv (AlarmClock d n f)"
  by (simp add: mutex_inv_def AlarmClock_def)

lemma in_locked_region_SleepUs [simp]: "\<not> in_locked_region (wpc (SleepUs p t i s))"
  using SleepUs_wpc [of p t i s] by auto

lemma mutex_worker_aux:
  assumes "AlarmClockInterruptableThread s = Some s'"
    and "mMutex s \<noteq> Some (Caller c) \<longrightarrow> \<not> in_reset_body (cpc s c)"
    and "mMutex s \<noteq> Some Worker \<longrightarrow> \<not> in_locked_region (wpc s)"
  shows "(mMutex s' \<noteq> Some (Caller c) \<longrightarrow> \<not> in_reset_body (cpc s' c)) \<and>
         (mMutex s' \<noteq> Some Worker \<longrightarrow> \<not> in_locked_region (wpc s'))"
  using assms(1) by (cases rule: worker_cases) (use assms(2-) in auto)

lemma mutex_advance_aux:
  assumes "advance c s = Some s'"
    and "mMutex s \<noteq> Some (Caller c) \<longrightarrow> \<not> in_reset_body (cpc s c)"
    and "mMutex s \<noteq> Some (Caller c') \<longrightarrow> \<not> in_reset_body (cpc s c')"
    and "mMutex s \<noteq> Some Worker \<longrightarrow> \<not> in_locked_region (wpc s)"
  shows "(mMutex s' \<noteq> Some (Caller c') \<longrightarrow> \<not> in_reset_body (cpc s' c')) \<and>
         (mMutex s' \<noteq> Some Worker \<longrightarrow> \<not> in_locked_region (wpc s'))"
  using assms(1)
  by (cases rule: advance_cases) (use assms(2-) in auto)

lemma mutex_invoke_aux:
  assumes "invoke c a s = Some s'"
    and "mMutex s \<noteq> Some (Caller c') \<longrightarrow> \<not> in_reset_body (cpc s c')"
    and "mMutex s \<noteq> Some Worker \<longrightarrow> \<not> in_locked_region (wpc s)"
  shows "(mMutex s' \<noteq> Some (Caller c') \<longrightarrow> \<not> in_reset_body (cpc s' c')) \<and>
         (mMutex s' \<noteq> Some Worker \<longrightarrow> \<not> in_locked_region (wpc s'))"
  using assms(1) by (cases rule: invoke_cases) (use assms(2-) in auto)

lemma mutex_spurious_aux:
  assumes "spurious s = Some s'"
    and "mMutex s \<noteq> Some (Caller c') \<longrightarrow> \<not> in_reset_body (cpc s c')"
    and "mMutex s \<noteq> Some Worker \<longrightarrow> \<not> in_locked_region (wpc s)"
  shows "(mMutex s' \<noteq> Some (Caller c') \<longrightarrow> \<not> in_reset_body (cpc s' c')) \<and>
         (mMutex s' \<noteq> Some Worker \<longrightarrow> \<not> in_locked_region (wpc s'))"
  using assms(1) by (cases rule: spurious_cases) (use assms(2-) in auto)

lemma mutex_inv_exec:
  assumes "mutex_inv s" and "exec e s = Some s'"
  shows "mutex_inv s'"
proof (cases e)
  case WorkerStep
  with assms show ?thesis
    using mutex_worker_aux [of s s'] by (simp add: mutex_inv_def)
next
  case (Invoke c a)
  with assms show ?thesis
    using mutex_invoke_aux [of c a s s'] by (simp add: mutex_inv_def)
next
  case (Advance c)
  with assms show ?thesis
    using mutex_advance_aux [of c s s'] by (simp add: mutex_inv_def)
next
  case SpuriousWakeup
  with assms show ?thesis
    using mutex_spurious_aux [of s s'] by (simp add: mutex_inv_def)
qed

section \<open>The elapsed-sleep counter\<close>

lemma exec_mSleptTime: "exec e s = Some s' \<Longrightarrow> mSleptTime s' = mSleptTime s"
proof (cases e)
  case WorkerStep
  assume "exec e s = Some s'"
  with WorkerStep have "AlarmClockInterruptableThread s = Some s'" by simp
  then show ?thesis by (cases rule: worker_cases) simp_all
next
  case (Invoke c a)
  assume "exec e s = Some s'"
  with Invoke have "invoke c a s = Some s'" by simp
  then show ?thesis by (cases rule: invoke_cases) simp_all
next
  case (Advance c)
  assume "exec e s = Some s'"
  with Advance have "advance c s = Some s'" by simp
  then show ?thesis by (cases rule: advance_cases) simp_all
next
  case SpuriousWakeup
  assume "exec e s = Some s'"
  with SpuriousWakeup have "spurious s = Some s'" by simp
  then show ?thesis by (cases rule: spurious_cases) simp_all
qed

lemma after_mSleptTime: "mSleptTime (after e s) = mSleptTime s"
  using after_cases [of e s] exec_mSleptTime [of e s "after e s"] by auto

lemma run_mSleptTime: "mSleptTime (run es s) = mSleptTime s"
  by (induction es arbitrary: s) (simp_all add: after_mSleptTime)

text \<open>
  C10: \<open>mSleptTime\<close> is 0 after construction and no step of any thread writes it, so
  in every state reached by any schedule \<open>SleptTime()\<close> returns 0.
\<close>

theorem mSleptTime_never_updated: "mSleptTime (run es (AlarmClock d n f)) = 0 \<and>
  fst (SleptTime (run es (AlarmClock d n f))) = 0 \<and>
  mSleptTime (after e s) = mSleptTime s"
  by (simp add: run_mSleptTime after_mSleptTime SleptTime_def AlarmClock_def)

section \<open>The exit flag\<close>

lemma exec_mExit_change:
  assumes "exec e s = Some s'" and "mExit s' \<noteq> mExit s"
  shows "mExit s' \<and> (\<exists>c. e = Advance c \<and> cpc s c = D_SetExit)"
proof (cases e)
  case WorkerStep
  with assms(1) have "AlarmClockInterruptableThread s = Some s'" by simp
  then show ?thesis by (cases rule: worker_cases) (use assms(2) in simp_all)
next
  case (Invoke c a)
  with assms(1) have "invoke c a s = Some s'" by simp
  then show ?thesis by (cases rule: invoke_cases) (use assms(2) in simp_all)
next
  case (Advance c)
  with assms(1) have "advance c s = Some s'" by simp
  then show ?thesis
    by (cases rule: advance_cases) (use assms(2) Advance in simp_all)
next
  case SpuriousWakeup
  with assms(1) have "spurious s = Some s'" by simp
  then show ?thesis by (cases rule: spurious_cases) (use assms(2) in simp_all)
qed

lemma after_mExit_change:
  "mExit (after e s) \<noteq> mExit s \<Longrightarrow>
     mExit (after e s) \<and> (\<exists>c. e = Advance c \<and> cpc s c = D_SetExit)"
  using after_cases [of e s] exec_mExit_change [of e s "after e s"] by auto

lemma after_mExit: "mExit s \<Longrightarrow> mExit (after e s)"
  using after_mExit_change [of e s] by auto

lemma run_mExit: "mExit s \<Longrightarrow> mExit (run es s)"
  by (induction es arbitrary: s) (simp_all add: after_mExit)

text \<open>
  C7: \<open>mExit\<close> is false after construction; once true it stays true along every
  schedule; and the only step that makes it true is the store at line 37 of the destructor.
\<close>

theorem mExit_monotone:
  "\<not> mExit (AlarmClock d n f) \<and>
   (mExit s \<longrightarrow> mExit (run es s)) \<and>
   (\<not> mExit s \<and> mExit (after e s) \<longrightarrow> (\<exists>c. e = Advance c \<and> cpc s c = D_SetExit))"
  using after_mExit_change [of e s] by (auto simp add: run_mExit AlarmClock_def)

text \<open>
  The witness: the flag is false when caller 0 enters the destructor, true after line 37,
  and still true after the worker and a \<open>Reset\<close> by caller 1 have moved.
\<close>

theorem mExit_monotone_witness:
  "\<not> mExit (run [Invoke 0 CallDestructor] (AlarmClock Microseconds 1 None)) \<and>
   mExit (run [Invoke 0 CallDestructor, Advance 0] (AlarmClock Microseconds 1 None)) \<and>
   mExit (run [WorkerStep, Invoke 1 CallReset, Advance 1, Advance 1]
           (run [Invoke 0 CallDestructor, Advance 0] (AlarmClock Microseconds 1 None)))"
  using mExit_monotone [of Microseconds 1 None
      "run [Invoke 0 CallDestructor, Advance 0] (AlarmClock Microseconds 1 None)"
      "[WorkerStep, Invoke 1 CallReset, Advance 1, Advance 1]"
      "Advance 0"]
  by (simp add: step_defs init_defs)

section \<open>Expired\<close>

text \<open>
  C6: \<open>Expired()\<close> returns true exactly when \<open>mExpired\<close> is nonzero, leaves the
  object as it was, and takes no lock: an idle caller completes the call in one step whoever
  holds \<open>mMutex\<close>.
\<close>

theorem Expired_reads_count:
  "fst (Expired s) = (mExpired s \<noteq> 0) \<and> snd (Expired s) = s \<and>
   (cpc s c = Idle \<longrightarrow> exec (Invoke c CallExpired) s = Some s)"
  by (simp add: Expired_def invoke_def)

text \<open>
  The witness: after four worker steps on a 1-microsecond clock the count is 1 and the worker
  owns the mutex at line 86; caller 0 still completes \<open>Expired()\<close>, which returns true.
\<close>

theorem Expired_reads_count_witness:
  "cpc (run [WorkerStep, WorkerStep, WorkerStep, WorkerStep]
          (AlarmClock Microseconds 1 None)) 0 = Idle \<and>
   mMutex (run [WorkerStep, WorkerStep, WorkerStep, WorkerStep]
          (AlarmClock Microseconds 1 None)) = Some Worker \<and>
   fst (Expired (run [WorkerStep, WorkerStep, WorkerStep, WorkerStep]
          (AlarmClock Microseconds 1 None))) \<and>
   exec (Invoke 0 CallExpired)
     (run [WorkerStep, WorkerStep, WorkerStep, WorkerStep] (AlarmClock Microseconds 1 None))
     = Some (run [WorkerStep, WorkerStep, WorkerStep, WorkerStep]
          (AlarmClock Microseconds 1 None))"
  using Expired_reads_count
    [of "run [WorkerStep, WorkerStep, WorkerStep, WorkerStep] (AlarmClock Microseconds 1 None)" 0]
  by (simp add: step_defs init_defs)

section \<open>The post-sleep step of the worker\<close>

lemma exec_cases:
  assumes "exec e s = Some s'"
  obtains
    (worker) "e = WorkerStep" "AlarmClockInterruptableThread s = Some s'"
  | (invoke) c a where "e = Invoke c a" "invoke c a s = Some s'"
  | (advance) c where "e = Advance c" "advance c s = Some s'"
  | (spurious) "e = SpuriousWakeup" "spurious s = Some s'"
  using assms by (cases e) simp_all

lemma mutex_inv_after: "mutex_inv s \<Longrightarrow> mutex_inv (after e s)"
  using after_cases [of e s] mutex_inv_exec [of s e "after e s"] by auto

lemma mutex_inv_run: "mutex_inv s \<Longrightarrow> mutex_inv (run es s)"
  by (induction es arbitrary: s) (simp_all add: mutex_inv_after)

lemma worker_holds_mutex:
  "in_locked_region (wpc (run es (AlarmClock d n f))) \<Longrightarrow>
     mMutex (run es (AlarmClock d n f)) = Some Worker"
  using mutex_inv_run [OF mutex_inv_init, of es d n f] by (auto simp add: mutex_inv_def)

lemma exec_wpc_change:
  assumes "exec e s = Some s'" and "wpc s' \<noteq> wpc s"
  shows "e = WorkerStep \<or> (wpc s = W_Parked \<and> wpc s' = W_Woken)"
  using assms(1)
proof (cases rule: exec_cases)
  case worker
  then show ?thesis by simp
next
  case (invoke c a)
  from invoke(2) show ?thesis by (cases rule: invoke_cases) (use assms(2) in simp_all)
next
  case (advance c)
  from advance(2) show ?thesis
    by (cases rule: advance_cases) (use assms(2) in \<open>simp_all split: if_splits\<close>)
next
  case spurious
  from spurious(2) show ?thesis by (cases rule: spurious_cases) simp_all
qed

lemma enters_While:
  assumes "exec e s = Some s'" and "wpc s' = W_While" and "wpc s \<noteq> W_While"
  shows "wpc s = W_Unlock"
proof -
  from exec_wpc_change [OF assms(1)] assms(2,3) have "e = WorkerStep" by auto
  with assms(1) have "AlarmClockInterruptableThread s = Some s'" by simp
  then show ?thesis by (cases rule: worker_cases) (use assms(2,3) in simp_all)
qed

lemma enters_Unlock:
  assumes "exec e s = Some s'" and "wpc s' = W_Unlock" and "wpc s \<noteq> W_Unlock"
  shows "wpc s = W_Clear \<and> \<not> mReset s'"
proof -
  from exec_wpc_change [OF assms(1)] assms(2,3) have "e = WorkerStep" by auto
  with assms(1) have "AlarmClockInterruptableThread s = Some s'" by simp
  then show ?thesis by (cases rule: worker_cases) (use assms(2,3) in simp_all)
qed

lemma enters_Clear:
  assumes "exec e s = Some s'" and "wpc s' = W_Clear" and "wpc s \<noteq> W_Clear"
  shows "(wpc s = W_Check \<and> mReset s) \<or> wpc s = W_Woken"
proof -
  from exec_wpc_change [OF assms(1)] assms(2,3) have "e = WorkerStep" by auto
  with assms(1) have "AlarmClockInterruptableThread s = Some s'" by simp
  then show ?thesis by (cases rule: worker_cases) (use assms(2,3) in simp_all)
qed

lemma enters_Parked:
  assumes "exec e s = Some s'" and "wpc s' = W_Parked" and "wpc s \<noteq> W_Parked"
  shows "wpc s = W_Check \<and> \<not> mReset s \<and> mMutex s' = None"
proof -
  from exec_wpc_change [OF assms(1)] assms(2,3) have "e = WorkerStep" by auto
  with assms(1) have "AlarmClockInterruptableThread s = Some s'" by simp
  then show ?thesis by (cases rule: worker_cases) (use assms(2,3) in simp_all)
qed

text \<open>
  C5: at line 86 the worker parks on the condition variable exactly when \<open>mReset\<close> is
  false (releasing the mutex, and unable to move until woken) and goes straight to line 94
  when it is true; it holds the mutex throughout lines 86-95 in every reachable state; the
  only ways into line 94 are the skipped wait and the wake-up; line 94 clears \<open>mReset\<close>,
  and the loop condition (exit or loop again) is reached only through that store.
\<close>

theorem post_sleep_step:
  "(wpc s = W_Check \<longrightarrow>
      (wpc (after WorkerStep s) = W_Parked) = (\<not> mReset s) \<and>
      (wpc (after WorkerStep s) = W_Clear) = mReset s \<and>
      (\<not> mReset s \<longrightarrow> mMutex (after WorkerStep s) = None \<and>
          exec WorkerStep (after WorkerStep s) = None)) \<and>
   (in_locked_region (wpc (run es (AlarmClock d n f))) \<longrightarrow>
      mMutex (run es (AlarmClock d n f)) = Some Worker) \<and>
   (exec e1 p1 = Some q1 \<and> wpc q1 = W_Parked \<and> wpc p1 \<noteq> W_Parked \<longrightarrow>
      wpc p1 = W_Check \<and> \<not> mReset p1) \<and>
   (exec e2 p2 = Some q2 \<and> wpc q2 = W_Clear \<and> wpc p2 \<noteq> W_Clear \<longrightarrow>
      (wpc p2 = W_Check \<and> mReset p2) \<or> wpc p2 = W_Woken) \<and>
   (wpc c = W_Clear \<longrightarrow>
      \<not> mReset (after WorkerStep c) \<and> wpc (after WorkerStep c) = W_Unlock \<and>
      \<not> mReset (run [WorkerStep, WorkerStep, WorkerStep] c) \<and>
      wpc (run [WorkerStep, WorkerStep, WorkerStep] c) = (if mExit c then W_Done else W_Call)) \<and>
   (exec e3 p3 = Some q3 \<and> wpc q3 = W_While \<and> wpc p3 \<noteq> W_While \<longrightarrow> wpc p3 = W_Unlock) \<and>
   (exec e4 p4 = Some q4 \<and> wpc q4 = W_Unlock \<and> wpc p4 \<noteq> W_Unlock \<longrightarrow>
      wpc p4 = W_Clear \<and> \<not> mReset q4)"
proof -
  have a: "wpc s = W_Check \<longrightarrow>
      (wpc (after WorkerStep s) = W_Parked) = (\<not> mReset s) \<and>
      (wpc (after WorkerStep s) = W_Clear) = mReset s \<and>
      (\<not> mReset s \<longrightarrow> mMutex (after WorkerStep s) = None \<and>
          exec WorkerStep (after WorkerStep s) = None)"
    by (simp add: after_def AlarmClockInterruptableThread_def)
  have b: "wpc c = W_Clear \<longrightarrow>
      \<not> mReset (after WorkerStep c) \<and> wpc (after WorkerStep c) = W_Unlock \<and>
      \<not> mReset (run [WorkerStep, WorkerStep, WorkerStep] c) \<and>
      wpc (run [WorkerStep, WorkerStep, WorkerStep] c) = (if mExit c then W_Done else W_Call)"
    by (simp add: after_def AlarmClockInterruptableThread_def)
  show ?thesis
    using a b worker_holds_mutex [of es d n f] enters_Parked [of e1 p1 q1]
      enters_Clear [of e2 p2 q2] enters_While [of e3 p3 q3] enters_Unlock [of e4 p4 q4]
    by blast
qed

text \<open>
  The witness follows the worker of a 1-microsecond clock: four steps bring it to line 86
  with no reset pending, where it parks; after a complete \<open>Reset\<close> by caller 0 it is at
  line 86 with the reset pending, skips the wait, clears the flag and loops.
\<close>

theorem post_sleep_step_witness:
  "wpc (run [WorkerStep, WorkerStep, WorkerStep, WorkerStep]
         (AlarmClock Microseconds 1 None)) = W_Check \<and>
   \<not> mReset (run [WorkerStep, WorkerStep, WorkerStep, WorkerStep]
         (AlarmClock Microseconds 1 None)) \<and>
   mMutex (run [WorkerStep, WorkerStep, WorkerStep, WorkerStep]
         (AlarmClock Microseconds 1 None)) = Some Worker \<and>
   wpc (run [WorkerStep, WorkerStep, WorkerStep, WorkerStep, WorkerStep]
         (AlarmClock Microseconds 1 None)) = W_Parked \<and>
   mMutex (run [WorkerStep, WorkerStep, WorkerStep, WorkerStep, WorkerStep]
         (AlarmClock Microseconds 1 None)) = None \<and>
   exec WorkerStep (run [WorkerStep, WorkerStep, WorkerStep, WorkerStep, WorkerStep]
         (AlarmClock Microseconds 1 None)) = None \<and>
   wpc (run [WorkerStep, WorkerStep, WorkerStep, WorkerStep]
       (run [Invoke 0 CallReset, Advance 0, Advance 0, Advance 0, Advance 0, Advance 0]
         (AlarmClock Microseconds 1 None))) = W_Check \<and>
   mReset (run [WorkerStep, WorkerStep, WorkerStep, WorkerStep]
       (run [Invoke 0 CallReset, Advance 0, Advance 0, Advance 0, Advance 0, Advance 0]
         (AlarmClock Microseconds 1 None))) \<and>
   wpc (run [WorkerStep, WorkerStep, WorkerStep, WorkerStep, WorkerStep]
       (run [Invoke 0 CallReset, Advance 0, Advance 0, Advance 0, Advance 0, Advance 0]
         (AlarmClock Microseconds 1 None))) = W_Clear \<and>
   \<not> mReset (run [WorkerStep, WorkerStep, WorkerStep, WorkerStep, WorkerStep, WorkerStep]
       (run [Invoke 0 CallReset, Advance 0, Advance 0, Advance 0, Advance 0, Advance 0]
         (AlarmClock Microseconds 1 None))) \<and>
   wpc (run [WorkerStep, WorkerStep, WorkerStep, WorkerStep, WorkerStep, WorkerStep,
             WorkerStep, WorkerStep]
       (run [Invoke 0 CallReset, Advance 0, Advance 0, Advance 0, Advance 0, Advance 0]
         (AlarmClock Microseconds 1 None))) = W_Call"
proof -
  let ?i = "AlarmClock Microseconds 1 None"
  let ?chk = "run [WorkerStep, WorkerStep, WorkerStep, WorkerStep] ?i"
  let ?rst = "run [WorkerStep, WorkerStep, WorkerStep, WorkerStep]
      (run [Invoke 0 CallReset, Advance 0, Advance 0, Advance 0, Advance 0, Advance 0] ?i)"
  let ?clr = "after WorkerStep ?rst"
  let ?unl = "after WorkerStep ?clr"
  let ?whl = "after WorkerStep ?unl"
  note w1 = post_sleep_step [of ?chk "[WorkerStep, WorkerStep, WorkerStep, WorkerStep]"
      Microseconds 1 None
      WorkerStep ?chk "after WorkerStep ?chk" WorkerStep ?rst ?clr ?clr
      WorkerStep ?unl ?whl WorkerStep ?clr ?unl]
  note w2 = post_sleep_step [of ?rst "[WorkerStep, WorkerStep, WorkerStep, WorkerStep]"
      Microseconds 1 None
      WorkerStep ?chk "after WorkerStep ?chk" WorkerStep ?rst ?clr ?clr
      WorkerStep ?unl ?whl WorkerStep ?clr ?unl]
  show ?thesis
    using w1 w2 by (simp add: step_defs init_defs)
qed

section \<open>Joining the worker\<close>

lemma exec_joinable_change:
  assumes "exec e s = Some s'" and "joinable s' \<noteq> joinable s"
  shows "\<exists>c. e = Advance c \<and> cpc s c = D_Join \<and> wpc s = W_Done \<and> \<not> joinable s'"
  using assms(1)
proof (cases rule: exec_cases)
  case worker
  from worker(2) show ?thesis by (cases rule: worker_cases) (use assms(2) in simp_all)
next
  case (invoke c a)
  from invoke(2) show ?thesis by (cases rule: invoke_cases) (use assms(2) in simp_all)
next
  case (advance c)
  from advance(2) show ?thesis
    by (cases rule: advance_cases) (use assms(2) advance(1) in simp_all)
next
  case spurious
  from spurious(2) show ?thesis by (cases rule: spurious_cases) (use assms(2) in simp_all)
qed

lemma enters_Join:
  assumes "exec e s = Some s'" and "cpc s' c = D_Join" and "cpc s c \<noteq> D_Join"
  shows "e = Advance c \<and> cpc s c = D_Stop \<and> joinable s \<and> mExit s"
  using assms(1)
proof (cases rule: exec_cases)
  case worker
  from worker(2) show ?thesis by (cases rule: worker_cases) (use assms(2,3) in simp_all)
next
  case (invoke c0 a)
  from invoke(2) show ?thesis
    by (cases rule: invoke_cases) (use assms(2,3) in \<open>simp_all split: if_splits\<close>)
next
  case (advance c0)
  from advance(2) show ?thesis
    by (cases rule: advance_cases) (use assms(2,3) advance(1) in \<open>simp_all split: if_splits\<close>)
next
  case spurious
  from spurious(2) show ?thesis by (cases rule: spurious_cases) (use assms(2,3) in simp_all)
qed

lemma teardown_exit_exec:
  assumes "exec e s = Some s'" and "cpc s c = D_Stop \<or> cpc s c = D_Join \<longrightarrow> mExit s"
  shows "cpc s' c = D_Stop \<or> cpc s' c = D_Join \<longrightarrow> mExit s'"
  using assms(1)
proof (cases rule: exec_cases)
  case worker
  from worker(2) show ?thesis by (cases rule: worker_cases) (use assms(2) in simp_all)
next
  case (invoke c0 a)
  from invoke(2) show ?thesis
    by (cases rule: invoke_cases) (use assms(2) in \<open>simp_all split: if_splits\<close>)
next
  case (advance c0)
  from advance(2) show ?thesis
    by (cases rule: advance_cases) (use assms(2) in \<open>simp_all split: if_splits\<close>)
next
  case spurious
  from spurious(2) show ?thesis by (cases rule: spurious_cases) (use assms(2) in simp_all)
qed

lemma teardown_exit_run:
  "cpc s c = D_Stop \<or> cpc s c = D_Join \<longrightarrow> mExit s \<Longrightarrow>
   cpc (run es s) c = D_Stop \<or> cpc (run es s) c = D_Join \<longrightarrow> mExit (run es s)"
proof (induction es arbitrary: s)
  case Nil
  then show ?case by simp
next
  case (Cons e es)
  have "cpc (after e s) c = D_Stop \<or> cpc (after e s) c = D_Join \<longrightarrow> mExit (after e s)"
    using after_cases [of e s] teardown_exit_exec [of e s "after e s" c] Cons.prems by auto
  from Cons.IH [OF this] show ?case by simp
qed

lemma teardown_exit_reachable:
  "cpc (run es (AlarmClock d n f)) c = D_Stop \<or> cpc (run es (AlarmClock d n f)) c = D_Join
     \<Longrightarrow> mExit (run es (AlarmClock d n f))"
  using teardown_exit_run [of "AlarmClock d n f" c es] by (simp add: AlarmClock_def)

text \<open>
  C8: at line 103 the caller goes on to \<open>join\<close> exactly when the thread is joinable and
  \<open>mExit\<close> is true, and returns without joining otherwise; \<open>join\<close> blocks until the
  worker's function has returned and only then makes the thread non-joinable; no other step
  joins the thread or enters \<open>join\<close>. In every reachable state a caller inside
  \<open>StopBackgroundThread\<close> finds \<open>mExit\<close> true, so a joinable thread is always joined.
\<close>

theorem StopBackgroundThread_joins_iff:
  "(cpc s c = D_Stop \<longrightarrow>
      (cpc (after (Advance c) s) c = D_Join) = (joinable s \<and> mExit s) \<and>
      (cpc (after (Advance c) s) c = Destroyed) = (\<not> (joinable s \<and> mExit s)) \<and>
      joinable (after (Advance c) s) = joinable s) \<and>
   (cpc j c1 = D_Join \<longrightarrow>
      (exec (Advance c1) j = None) = (wpc j \<noteq> W_Done) \<and>
      (wpc j = W_Done \<longrightarrow> \<not> joinable (after (Advance c1) j) \<and>
         cpc (after (Advance c1) j) c1 = Destroyed)) \<and>
   (exec e p = Some q \<and> joinable p \<and> \<not> joinable q \<longrightarrow>
      (\<exists>c'. e = Advance c' \<and> cpc p c' = D_Join \<and> wpc p = W_Done)) \<and>
   (exec e2 p2 = Some q2 \<and> cpc q2 c2 = D_Join \<and> cpc p2 c2 \<noteq> D_Join \<longrightarrow>
      e2 = Advance c2 \<and> cpc p2 c2 = D_Stop \<and> joinable p2 \<and> mExit p2) \<and>
   (cpc (run es (AlarmClock d n f)) c3 = D_Stop \<or> cpc (run es (AlarmClock d n f)) c3 = D_Join
      \<longrightarrow> mExit (run es (AlarmClock d n f))) \<and>
   (cpc (run es (AlarmClock d n f)) c3 = D_Stop \<and> joinable (run es (AlarmClock d n f)) \<longrightarrow>
      cpc (after (Advance c3) (run es (AlarmClock d n f))) c3 = D_Join)"
proof -
  have a: "cpc s c = D_Stop \<longrightarrow>
      (cpc (after (Advance c) s) c = D_Join) = (joinable s \<and> mExit s) \<and>
      (cpc (after (Advance c) s) c = Destroyed) = (\<not> (joinable s \<and> mExit s)) \<and>
      joinable (after (Advance c) s) = joinable s"
    by (simp add: after_def advance_def Destructor_def StopBackgroundThread_def)
  have b: "cpc j c1 = D_Join \<longrightarrow>
      (exec (Advance c1) j = None) = (wpc j \<noteq> W_Done) \<and>
      (wpc j = W_Done \<longrightarrow> \<not> joinable (after (Advance c1) j) \<and>
         cpc (after (Advance c1) j) c1 = Destroyed)"
    by (simp add: after_def advance_def Destructor_def StopBackgroundThread_def)
  have c: "cpc r c3 = D_Stop \<and> joinable r \<and> mExit r \<longrightarrow>
      cpc (after (Advance c3) r) c3 = D_Join" for r
    by (simp add: after_def advance_def Destructor_def StopBackgroundThread_def)
  show ?thesis
    using a b c [of "run es (AlarmClock d n f)"] exec_joinable_change [of e p q]
      enters_Join [of e2 p2 q2 c2] teardown_exit_reachable [of es d n f c3]
    by blast
qed

text \<open>
  The witness tears down a 3-microsecond clock right after construction: the destructor
  reaches line 103 with the thread joinable and \<open>mExit\<close> set, so it joins; the join is
  blocked while the worker runs and returns once the worker, which sees \<open>mExit\<close> in
  \<open>SleepUs\<close>, has left its loop.
\<close>

theorem StopBackgroundThread_joins_iff_witness:
  "cpc (run [Invoke 0 CallDestructor, Advance 0] (AlarmClock Microseconds 3 None)) 0 = D_Stop \<and>
   joinable (run [Invoke 0 CallDestructor, Advance 0] (AlarmClock Microseconds 3 None)) \<and>
   mExit (run [Invoke 0 CallDestructor, Advance 0] (AlarmClock Microseconds 3 None)) \<and>
   cpc (run [Invoke 0 CallDestructor, Advance 0, Advance 0] (AlarmClock Microseconds 3 None)) 0 = D_Join \<and>
   exec (Advance 0)
     (run [Invoke 0 CallDestructor, Advance 0, Advance 0] (AlarmClock Microseconds 3 None)) = None \<and>
   wpc (run [Invoke 0 CallDestructor, Advance 0, Advance 0, WorkerStep, WorkerStep, WorkerStep,
             WorkerStep, WorkerStep, WorkerStep] (AlarmClock Microseconds 3 None)) = W_Done \<and>
   \<not> joinable (run [Invoke 0 CallDestructor, Advance 0, Advance 0, WorkerStep, WorkerStep,
             WorkerStep, WorkerStep, WorkerStep, WorkerStep, Advance 0]
             (AlarmClock Microseconds 3 None)) \<and>
   cpc (run [Invoke 0 CallDestructor, Advance 0, Advance 0, WorkerStep, WorkerStep,
             WorkerStep, WorkerStep, WorkerStep, WorkerStep, Advance 0]
             (AlarmClock Microseconds 3 None)) 0 = Destroyed"
proof -
  let ?i = "AlarmClock Microseconds 3 None"
  let ?s = "run [Invoke 0 CallDestructor, Advance 0] ?i"
  let ?j = "after (Advance 0) ?s"
  let ?d = "run [WorkerStep, WorkerStep, WorkerStep, WorkerStep, WorkerStep, WorkerStep] ?j"
  note w1 = StopBackgroundThread_joins_iff [where s = ?s and c = 0 and j = ?j
      and ?c1.0 = 0 and e = "Advance 0" and p = ?d
      and q = "after (Advance 0) ?d" and ?e2.0 = "Advance 0" and ?p2.0 = ?s and ?q2.0 = ?j
      and ?c2.0 = 0 and es = "[Invoke 0 CallDestructor, Advance 0]" and d = Microseconds
      and n = 3 and f = None and ?c3.0 = 0]
  note w2 = StopBackgroundThread_joins_iff [where s = ?s and c = 0 and j = ?d
      and ?c1.0 = 0 and e = "Advance 0" and p = ?d
      and q = "after (Advance 0) ?d" and ?e2.0 = "Advance 0" and ?p2.0 = ?s and ?q2.0 = ?j
      and ?c2.0 = 0 and es = "[Invoke 0 CallDestructor, Advance 0, Advance 0]"
      and d = Microseconds and n = 3 and f = None and ?c3.0 = 0]
  show ?thesis
    using w1 w2 by (simp add: step_defs init_defs)
qed

section \<open>Natural expiry\<close>

lemma exec_mExpired_change:
  assumes "exec e s = Some s'" and "mExpired s' \<noteq> mExpired s"
  shows "(e = WorkerStep \<and> wpc s = W_Ret 0 \<and> mExpired s' = mExpired s + 1) \<or>
         (\<exists>c. e = Advance c \<and> cpc s c = R_Zero \<and> mExpired s' = 0)"
  using assms(1)
proof (cases rule: exec_cases)
  case worker
  from worker(2) show ?thesis
    by (cases rule: worker_cases) (use assms(2) worker(1) in simp_all)
next
  case (invoke c a)
  from invoke(2) show ?thesis by (cases rule: invoke_cases) (use assms(2) in simp_all)
next
  case (advance c)
  from advance(2) show ?thesis
    by (cases rule: advance_cases) (use assms(2) advance(1) in simp_all)
next
  case spurious
  from spurious(2) show ?thesis by (cases rule: spurious_cases) (use assms(2) in simp_all)
qed

lemma interrupted_only_exec:
  assumes "\<forall>t. h t \<noteq> 0" and "exec e s = Some s'"
    and "mSleepFunction s = Injected h" and "mExpired s = 0" and "interrupted_only (wpc s)"
  shows "mSleepFunction s' = Injected h \<and> mExpired s' = 0 \<and> interrupted_only (wpc s')"
  using assms(2)
proof (cases rule: exec_cases)
  case worker
  from worker(2) show ?thesis
    by (cases rule: worker_cases) (use assms(1,3-) in auto)
next
  case (invoke c a)
  from invoke(2) show ?thesis by (cases rule: invoke_cases) (use assms(3-) in simp_all)
next
  case (advance c)
  from advance(2) show ?thesis
    by (cases rule: advance_cases) (use assms(3-) in simp_all)
next
  case spurious
  from spurious(2) show ?thesis by (cases rule: spurious_cases) (use assms(3-) in simp_all)
qed

lemma interrupted_only_run:
  assumes "\<forall>t. h t \<noteq> 0"
  shows "mSleepFunction s = Injected h \<and> mExpired s = 0 \<and> interrupted_only (wpc s) \<Longrightarrow>
     mSleepFunction (run es s) = Injected h \<and> mExpired (run es s) = 0 \<and>
     interrupted_only (wpc (run es s))"
proof (induction es arbitrary: s)
  case Nil
  then show ?case by simp
next
  case (Cons e es)
  have "mSleepFunction (after e s) = Injected h \<and> mExpired (after e s) = 0 \<and>
      interrupted_only (wpc (after e s))"
    using after_cases [of e s] interrupted_only_exec [OF assms, of e s "after e s"] Cons.prems
    by auto
  from Cons.IH [OF this] show ?case by simp
qed

text \<open>
  C4: the step at lines 77-82 adds one to \<open>mExpired\<close> exactly when \<open>retVal\<close> is 0, and
  no other step of the worker changes the count. With an injected strategy that returns 0,
  the call and the step after it add exactly one, and a whole iteration (a reset pending, so
  that the worker does not park) adds exactly one; with an injected strategy that never
  returns 0 the count is 0 in every state reached by any schedule.
\<close>

theorem expired_incremented_iff_completed:
  "(wpc s = W_Ret r \<longrightarrow>
      mExpired (after WorkerStep s) = (if r = 0 then mExpired s + 1 else mExpired s)) \<and>
   ((\<forall>r. wpc s1 \<noteq> W_Ret r) \<longrightarrow> mExpired (after WorkerStep s1) = mExpired s1) \<and>
   (wpc s2 = W_Call \<and> mSleepFunction s2 = Injected g \<and> g (kSleepTimeUsCount s2) = 0 \<longrightarrow>
      mExpired (run [WorkerStep, WorkerStep] s2) = mExpired s2 + 1 \<and>
      wpc (run [WorkerStep, WorkerStep] s2) = W_Lock) \<and>
   (wpc s3 = W_Call \<and> mSleepFunction s3 = Injected g3 \<and> g3 (kSleepTimeUsCount s3) = 0 \<and>
    mMutex s3 = None \<and> mReset s3 \<and> \<not> mExit s3 \<longrightarrow>
      mExpired (run [WorkerStep, WorkerStep, WorkerStep, WorkerStep, WorkerStep, WorkerStep,
                     WorkerStep] s3) = mExpired s3 + 1 \<and>
      wpc (run [WorkerStep, WorkerStep, WorkerStep, WorkerStep, WorkerStep, WorkerStep,
                     WorkerStep] s3) = W_Call) \<and>
   ((\<forall>t. h t \<noteq> 0) \<longrightarrow> mExpired (run es (AlarmClock d n (Some h))) = 0)"
proof -
  have a: "wpc s = W_Ret r \<longrightarrow>
      mExpired (after WorkerStep s) = (if r = 0 then mExpired s + 1 else mExpired s)"
    by (simp add: after_def AlarmClockInterruptableThread_def)
  have b: "(\<forall>r. wpc s1 \<noteq> W_Ret r) \<longrightarrow> mExpired (after WorkerStep s1) = mExpired s1"
    using after_cases [of WorkerStep s1] exec_mExpired_change [of WorkerStep s1 "after WorkerStep s1"]
    by auto
  have c: "wpc s2 = W_Call \<and> mSleepFunction s2 = Injected g \<and> g (kSleepTimeUsCount s2) = 0 \<longrightarrow>
      mExpired (run [WorkerStep, WorkerStep] s2) = mExpired s2 + 1 \<and>
      wpc (run [WorkerStep, WorkerStep] s2) = W_Lock"
    by (simp add: after_def AlarmClockInterruptableThread_def)
  have d: "wpc s3 = W_Call \<and> mSleepFunction s3 = Injected g3 \<and> g3 (kSleepTimeUsCount s3) = 0 \<and>
    mMutex s3 = None \<and> mReset s3 \<and> \<not> mExit s3 \<longrightarrow>
      mExpired (run [WorkerStep, WorkerStep, WorkerStep, WorkerStep, WorkerStep, WorkerStep,
                     WorkerStep] s3) = mExpired s3 + 1 \<and>
      wpc (run [WorkerStep, WorkerStep, WorkerStep, WorkerStep, WorkerStep, WorkerStep,
                     WorkerStep] s3) = W_Call"
    by (simp add: after_def AlarmClockInterruptableThread_def)
  have e: "(\<forall>t. h t \<noteq> 0) \<longrightarrow> mExpired (run es (AlarmClock d n (Some h))) = 0"
    using interrupted_only_run [of h "AlarmClock d n (Some h)" es]
    by (simp add: AlarmClock_def)
  from a b c d e show ?thesis by blast
qed

text \<open>
  The witness runs three injected strategies on a 5-microsecond clock: one that returns 1
  (the count stays 0 at line 77, and stays 0 along a schedule with a reset), and one that
  returns 0 (the count is 1 after the call and line 79, and 1 again after a whole iteration
  that starts with a reset pending).
\<close>

theorem expired_incremented_iff_completed_witness:
  "wpc (run [WorkerStep] (AlarmClock Microseconds 5 (Some (\<lambda>_. 1)))) = W_Ret 1 \<and>
   mExpired (run [WorkerStep, WorkerStep] (AlarmClock Microseconds 5 (Some (\<lambda>_. 1)))) = 0 \<and>
   wpc (run [WorkerStep] (AlarmClock Microseconds 5 (Some (\<lambda>_. 0)))) = W_Ret 0 \<and>
   mExpired (run [WorkerStep, WorkerStep] (AlarmClock Microseconds 5 (Some (\<lambda>_. 0)))) = 1 \<and>
   mExpired (run [WorkerStep] (AlarmClock Microseconds 5 (Some (\<lambda>_. 0)))) = 0 \<and>
   mReset (run [Invoke 0 CallReset, Advance 0, Advance 0, Advance 0, Advance 0, Advance 0]
            (AlarmClock Microseconds 5 (Some (\<lambda>_. 0)))) \<and>
   mExpired (run [Invoke 0 CallReset, Advance 0, Advance 0, Advance 0, Advance 0, Advance 0,
                  WorkerStep, WorkerStep, WorkerStep, WorkerStep, WorkerStep, WorkerStep,
                  WorkerStep] (AlarmClock Microseconds 5 (Some (\<lambda>_. 0)))) = 1 \<and>
   wpc (run [Invoke 0 CallReset, Advance 0, Advance 0, Advance 0, Advance 0, Advance 0,
                  WorkerStep, WorkerStep, WorkerStep, WorkerStep, WorkerStep, WorkerStep,
                  WorkerStep] (AlarmClock Microseconds 5 (Some (\<lambda>_. 0)))) = W_Call \<and>
   mExpired (run [WorkerStep, WorkerStep, WorkerStep, WorkerStep, Invoke 0 CallReset,
                  Advance 0, Advance 0, Advance 0, Advance 0, Advance 0, WorkerStep,
                  WorkerStep, WorkerStep, WorkerStep, WorkerStep]
                 (AlarmClock Microseconds 5 (Some (\<lambda>_. 1)))) = 0"
proof -
  let ?one = "AlarmClock Microseconds 5 (Some (\<lambda>_. 1))"
  let ?zero = "AlarmClock Microseconds 5 (Some (\<lambda>_. 0))"
  let ?pending = "run [Invoke 0 CallReset, Advance 0, Advance 0, Advance 0, Advance 0, Advance 0]
      ?zero"
  let ?es = "[WorkerStep, WorkerStep, WorkerStep, WorkerStep, Invoke 0 CallReset,
      Advance 0, Advance 0, Advance 0, Advance 0, Advance 0, WorkerStep,
      WorkerStep, WorkerStep, WorkerStep, WorkerStep]"
  note w1 = expired_incremented_iff_completed [where s = "run [WorkerStep] ?one" and r = 1 and ?s1.0 = ?zero
      and ?s2.0 = ?zero and g = "\<lambda>_. 0" and ?s3.0 = ?pending and ?g3.0 = "\<lambda>_. 0"
      and h = "\<lambda>_. 1" and es = ?es and d = Microseconds and n = 5]
  note w2 = expired_incremented_iff_completed [where s = "run [WorkerStep] ?zero" and r = 0 and ?s1.0 = ?zero
      and ?s2.0 = ?zero and g = "\<lambda>_. 0" and ?s3.0 = ?pending and ?g3.0 = "\<lambda>_. 0"
      and h = "\<lambda>_. 1" and es = ?es and d = Microseconds and n = 5]
  show ?thesis
    using w1 w2 by (simp add: step_defs init_defs)
qed

section \<open>Reset\<close>

lemma mutex_invD:
  assumes "mutex_inv s"
  shows "mMutex s \<noteq> Some (Caller c) \<longrightarrow> \<not> in_reset_body (cpc s c)"
    and "mMutex s \<noteq> Some Worker \<longrightarrow> \<not> in_locked_region (wpc s)"
  using assms by (simp_all add: mutex_inv_def)

lemma caller_holds_mutex:
  "in_reset_body (cpc (run es (AlarmClock d n f)) c) \<Longrightarrow>
     mMutex (run es (AlarmClock d n f)) = Some (Caller c)"
  using mutex_inv_run [OF mutex_inv_init, of es d n f] by (auto simp add: mutex_inv_def)

lemma no_expiry_run:
  "mExpired s = 0 \<Longrightarrow> never worker_expiry es s \<Longrightarrow> mExpired (run es s) = 0"
proof (induction es arbitrary: s)
  case Nil
  then show ?case by simp
next
  case (Cons e es)
  from Cons.prems have ne: "\<not> worker_expiry e s" and rest: "never worker_expiry es (after e s)"
    by simp_all
  have "mExpired (after e s) = 0"
    using after_cases [of e s] exec_mExpired_change [of e s "after e s"] ne Cons.prems(1)
    by (auto simp add: worker_expiry_def)
  from Cons.IH [OF this rest] show ?case by simp
qed

lemma Reset_alone:
  assumes "cpc s c = Idle" and "mMutex s = None"
  shows "mReset (run [Invoke c CallReset, Advance c, Advance c, Advance c, Advance c, Advance c] s)"
    and "mExpired (run [Invoke c CallReset, Advance c, Advance c, Advance c, Advance c, Advance c] s) = 0"
    and "wpc (run [Invoke c CallReset, Advance c, Advance c, Advance c, Advance c, Advance c] s)
          = (if wpc s = W_Parked then W_Woken else wpc s)"
    and "mMutex (run [Invoke c CallReset, Advance c, Advance c, Advance c, Advance c, Advance c] s) = None"
    and "cpc (run [Invoke c CallReset, Advance c, Advance c, Advance c, Advance c, Advance c] s) c = Idle"
  using assms by (simp_all add: after_def invoke_def advance_def Reset_def)

text \<open>
  C3: run without interference by an idle caller while the mutex is free, \<open>Reset\<close> sets
  \<open>mReset\<close>, zeroes \<open>mExpired\<close>, wakes a parked worker, releases the mutex and returns,
  and \<open>Expired()\<close> is then false. Under any interleaving: the call waits at line 46 exactly
  while the mutex is held and then owns it, and owns it at every later line of the body in
  every reachable state; line 47 sets the flag; line 54 wakes a parked worker; and from
  line 53 on, along every schedule in which the worker does not execute line 79, the count
  stays 0 and \<open>Expired()\<close> returns false.
\<close>

theorem Reset_effect:
  "(cpc s c = Idle \<and> mMutex s = None \<longrightarrow>
      (let r = run [Invoke c CallReset, Advance c, Advance c, Advance c, Advance c, Advance c] s
       in mReset r \<and> mExpired r = 0 \<and>
          wpc r = (if wpc s = W_Parked then W_Woken else wpc s) \<and>
          mMutex r = None \<and> cpc r c = Idle \<and> \<not> fst (Expired r))) \<and>
   (cpc l c1 = R_Lock \<longrightarrow>
      (exec (Advance c1) l = None) = (mMutex l \<noteq> None) \<and>
      (mMutex l = None \<longrightarrow> mMutex (after (Advance c1) l) = Some (Caller c1))) \<and>
   (in_reset_body (cpc (run es (AlarmClock d n f)) c2) \<longrightarrow>
      mMutex (run es (AlarmClock d n f)) = Some (Caller c2)) \<and>
   (cpc a c3 = R_SetReset \<longrightarrow> mReset (after (Advance c3) a)) \<and>
   (cpc z c4 = R_Zero \<and> never worker_expiry es4 (after (Advance c4) z) \<longrightarrow>
      mExpired (run es4 (after (Advance c4) z)) = 0 \<and>
      \<not> fst (Expired (run es4 (after (Advance c4) z)))) \<and>
   (cpc y c5 = R_Notify \<longrightarrow>
      wpc (after (Advance c5) y) = (if wpc y = W_Parked then W_Woken else wpc y))"
proof -
  have a: "cpc s c = Idle \<and> mMutex s = None \<longrightarrow>
      (let r = run [Invoke c CallReset, Advance c, Advance c, Advance c, Advance c, Advance c] s
       in mReset r \<and> mExpired r = 0 \<and>
          wpc r = (if wpc s = W_Parked then W_Woken else wpc s) \<and>
          mMutex r = None \<and> cpc r c = Idle \<and> \<not> fst (Expired r))"
    using Reset_alone [of s c] by (simp add: Expired_def Let_def)
  have b: "cpc l c1 = R_Lock \<longrightarrow>
      (exec (Advance c1) l = None) = (mMutex l \<noteq> None) \<and>
      (mMutex l = None \<longrightarrow> mMutex (after (Advance c1) l) = Some (Caller c1))"
    by (simp add: after_def advance_def Reset_def)
  have c: "cpc a c3 = R_SetReset \<longrightarrow> mReset (after (Advance c3) a)"
    by (simp add: after_def advance_def Reset_def)
  have z0: "cpc z c4 = R_Zero \<longrightarrow> mExpired (after (Advance c4) z) = 0"
    by (simp add: after_def advance_def Reset_def)
  have d: "cpc z c4 = R_Zero \<and> never worker_expiry es4 (after (Advance c4) z) \<longrightarrow>
      mExpired (run es4 (after (Advance c4) z)) = 0 \<and>
      \<not> fst (Expired (run es4 (after (Advance c4) z)))"
    using z0 no_expiry_run [of "after (Advance c4) z" es4] by (simp add: Expired_def)
  have e: "cpc y c5 = R_Notify \<longrightarrow>
      wpc (after (Advance c5) y) = (if wpc y = W_Parked then W_Woken else wpc y)"
    by (simp add: after_def advance_def Reset_def)
  from a b c d e caller_holds_mutex [of es d n f c2] show ?thesis by blast
qed

text \<open>
  The witness resets a 1-microsecond clock whose worker has expired once and is parked:
  the call clears the count, wakes the worker and leaves the flag set, and \<open>Expired()\<close>
  stays false while the woken worker goes on; a second caller that arrives while the worker
  holds the mutex at line 86 is blocked at line 46.
\<close>

theorem Reset_effect_witness:
  "cpc (run [WorkerStep, WorkerStep, WorkerStep, WorkerStep, WorkerStep]
         (AlarmClock Microseconds 1 None)) 0 = Idle \<and>
   mMutex (run [WorkerStep, WorkerStep, WorkerStep, WorkerStep, WorkerStep]
         (AlarmClock Microseconds 1 None)) = None \<and>
   wpc (run [WorkerStep, WorkerStep, WorkerStep, WorkerStep, WorkerStep]
         (AlarmClock Microseconds 1 None)) = W_Parked \<and>
   fst (Expired (run [WorkerStep, WorkerStep, WorkerStep, WorkerStep, WorkerStep]
         (AlarmClock Microseconds 1 None))) \<and>
   mReset (run [Invoke 0 CallReset, Advance 0, Advance 0, Advance 0, Advance 0, Advance 0]
     (run [WorkerStep, WorkerStep, WorkerStep, WorkerStep, WorkerStep]
         (AlarmClock Microseconds 1 None))) \<and>
   wpc (run [Invoke 0 CallReset, Advance 0, Advance 0, Advance 0, Advance 0, Advance 0]
     (run [WorkerStep, WorkerStep, WorkerStep, WorkerStep, WorkerStep]
         (AlarmClock Microseconds 1 None))) = W_Woken \<and>
   \<not> fst (Expired
     (run [Invoke 0 CallReset, Advance 0, Advance 0, Advance 0, Advance 0, Advance 0]
       (run [WorkerStep, WorkerStep, WorkerStep, WorkerStep, WorkerStep]
         (AlarmClock Microseconds 1 None)))) \<and>
   cpc (run [WorkerStep, WorkerStep, WorkerStep, WorkerStep, Invoke 1 CallReset]
          (AlarmClock Microseconds 1 None)) 1 = R_Lock \<and>
   exec (Advance 1) (run [WorkerStep, WorkerStep, WorkerStep, WorkerStep, Invoke 1 CallReset]
          (AlarmClock Microseconds 1 None)) = None \<and>
   mMutex (run [Invoke 0 CallReset, Advance 0, Advance 0]
     (run [WorkerStep, WorkerStep, WorkerStep, WorkerStep, WorkerStep]
         (AlarmClock Microseconds 1 None))) = Some (Caller 0) \<and>
   cpc (run [Invoke 0 CallReset, Advance 0, Advance 0]
     (run [WorkerStep, WorkerStep, WorkerStep, WorkerStep, WorkerStep]
         (AlarmClock Microseconds 1 None))) 0 = R_Zero \<and>
   never worker_expiry [Advance 0, Advance 0, WorkerStep, WorkerStep, Invoke 1 CallExpired]
     (run [Invoke 0 CallReset, Advance 0, Advance 0, Advance 0]
       (run [WorkerStep, WorkerStep, WorkerStep, WorkerStep, WorkerStep]
         (AlarmClock Microseconds 1 None))) \<and>
   \<not> fst (Expired
     (run [Invoke 0 CallReset, Advance 0, Advance 0, Advance 0, Advance 0, Advance 0,
           WorkerStep, WorkerStep, Invoke 1 CallExpired]
       (run [WorkerStep, WorkerStep, WorkerStep, WorkerStep, WorkerStep]
         (AlarmClock Microseconds 1 None))))"
proof -
  let ?i = "AlarmClock Microseconds 1 None"
  let ?p = "run [WorkerStep, WorkerStep, WorkerStep, WorkerStep, WorkerStep] ?i"
  let ?l = "run [WorkerStep, WorkerStep, WorkerStep, WorkerStep, Invoke 1 CallReset] ?i"
  let ?a = "run [Invoke 0 CallReset, Advance 0] ?p"
  let ?z = "after (Advance 0) ?a"
  let ?y = "after (Advance 0) ?z"
  note w = Reset_effect [where s = ?p and c = 0 and l = ?l and ?c1.0 = 1
      and es = "[WorkerStep, WorkerStep, WorkerStep, WorkerStep, WorkerStep,
        Invoke 0 CallReset, Advance 0, Advance 0]"
      and d = Microseconds and n = 1 and f = None and ?c2.0 = 0
      and a = ?a and ?c3.0 = 0 and z = ?z and ?c4.0 = 0
      and ?es4.0 = "[Advance 0, Advance 0, WorkerStep, WorkerStep, Invoke 1 CallExpired]"
      and y = ?y and ?c5.0 = 0]
  show ?thesis
    using w by (simp add: step_defs init_defs worker_expiry_def Let_def)
qed

section \<open>No missed reset\<close>

lemma reset_stored_body: "reset_stored p \<Longrightarrow> in_reset_body p"
  by (cases p) simp_all

lemma exec_mReset_change:
  assumes "exec e s = Some s'" and "mReset s' \<noteq> mReset s"
  shows "(e = WorkerStep \<and> wpc s = W_Clear \<and> \<not> mReset s') \<or>
         (\<exists>c. e = Advance c \<and> cpc s c = R_SetReset \<and> mReset s')"
  using assms(1)
proof (cases rule: exec_cases)
  case worker
  from worker(2) show ?thesis
    by (cases rule: worker_cases) (use assms(2) worker(1) in simp_all)
next
  case (invoke c a)
  from invoke(2) show ?thesis by (cases rule: invoke_cases) (use assms(2) in simp_all)
next
  case (advance c)
  from advance(2) show ?thesis
    by (cases rule: advance_cases) (use assms(2) advance(1) in simp_all)
next
  case spurious
  from spurious(2) show ?thesis by (cases rule: spurious_cases) (use assms(2) in simp_all)
qed

lemma no_clear_run:
  "mReset s \<Longrightarrow> never worker_clear es s \<Longrightarrow> mReset (run es s)"
proof (induction es arbitrary: s)
  case Nil
  then show ?case by simp
next
  case (Cons e es)
  from Cons.prems have nc: "\<not> worker_clear e s" and rest: "never worker_clear es (after e s)"
    by simp_all
  have "mReset (after e s)"
    using after_cases [of e s] exec_mReset_change [of e s "after e s"] nc Cons.prems(1)
    by (auto simp add: worker_clear_def)
  from Cons.IH [OF this rest] show ?case by simp
qed

lemma flag_exec:
  assumes "exec e s = Some s'" and "mutex_inv s"
    and "\<not> mReset s \<longrightarrow> \<not> reset_stored (cpc s c)"
  shows "\<not> mReset s' \<longrightarrow> \<not> reset_stored (cpc s' c)"
  using assms(1)
proof (cases rule: exec_cases)
  case worker
  from worker(2) show ?thesis
    by (cases rule: worker_cases)
      (use assms(3) mutex_invD(1) [OF assms(2), of c] mutex_invD(2) [OF assms(2)]
        reset_stored_body [of "cpc s c"] in auto)
next
  case (invoke c0 a)
  from invoke(2) show ?thesis
    by (cases rule: invoke_cases) (use assms(3) in \<open>simp_all split: if_splits\<close>)
next
  case (advance c0)
  from advance(2) show ?thesis
    by (cases rule: advance_cases) (use assms(3) in \<open>auto split: if_splits\<close>)
next
  case spurious
  from spurious(2) show ?thesis by (cases rule: spurious_cases) (use assms(3) in simp_all)
qed

lemma wake_exec:
  assumes "exec e s = Some s'" and "mutex_inv s"
    and "wpc s = W_Parked \<and> mReset s \<longrightarrow> notifier_pending s"
  shows "wpc s' = W_Parked \<and> mReset s' \<longrightarrow> notifier_pending s'"
  using assms(1)
proof (cases rule: exec_cases)
  case worker
  from worker(2) show ?thesis
    by (cases rule: worker_cases) (use assms(3) in simp_all)
next
  case (invoke c0 a)
  from invoke(2) show ?thesis
    by (cases rule: invoke_cases)
      (use assms(3) in \<open>auto simp add: notifier_pending_def split: option.splits tid.splits\<close>)
next
  case (advance c0)
  from advance(2) show ?thesis
    by (cases rule: advance_cases)
      (use assms(3) mutex_invD(1) [OF assms(2), of c0] in
        \<open>auto simp add: notifier_pending_def split: option.splits tid.splits if_splits\<close>)
next
  case spurious
  from spurious(2) show ?thesis by (cases rule: spurious_cases) simp_all
qed

lemma protocol_after:
  assumes "mutex_inv s"
    and "\<forall>c. \<not> mReset s \<longrightarrow> \<not> reset_stored (cpc s c)"
    and "wpc s = W_Parked \<and> mReset s \<longrightarrow> notifier_pending s"
  shows "mutex_inv (after e s) \<and>
    (\<forall>c. \<not> mReset (after e s) \<longrightarrow> \<not> reset_stored (cpc (after e s) c)) \<and>
    (wpc (after e s) = W_Parked \<and> mReset (after e s) \<longrightarrow> notifier_pending (after e s))"
proof (cases "exec e s")
  case None
  with assms show ?thesis by (simp add: after_def)
next
  case (Some s')
  then have eq: "after e s = s'" by (simp add: after_def)
  have "\<not> mReset s' \<longrightarrow> \<not> reset_stored (cpc s' c)" for c
    using flag_exec [OF Some assms(1), of c] assms(2) by simp
  with mutex_inv_exec [OF assms(1) Some] wake_exec [OF Some assms(1,3)] eq
  show ?thesis by simp
qed

lemma protocol_run:
  "mutex_inv s \<and> (\<forall>c. \<not> mReset s \<longrightarrow> \<not> reset_stored (cpc s c)) \<and>
     (wpc s = W_Parked \<and> mReset s \<longrightarrow> notifier_pending s) \<Longrightarrow>
   mutex_inv (run es s) \<and>
     (\<forall>c. \<not> mReset (run es s) \<longrightarrow> \<not> reset_stored (cpc (run es s) c)) \<and>
     (wpc (run es s) = W_Parked \<and> mReset (run es s) \<longrightarrow> notifier_pending (run es s))"
proof (induction es arbitrary: s)
  case Nil
  then show ?case by simp
next
  case (Cons e es)
  from Cons.prems have "mutex_inv (after e s) \<and>
    (\<forall>c. \<not> mReset (after e s) \<longrightarrow> \<not> reset_stored (cpc (after e s) c)) \<and>
    (wpc (after e s) = W_Parked \<and> mReset (after e s) \<longrightarrow> notifier_pending (after e s))"
    using protocol_after [of s e] by blast
  from Cons.IH [OF this] show ?case by simp
qed

lemma protocol_reachable:
  "mutex_inv (run es (AlarmClock d n f)) \<and>
     (\<forall>c. \<not> mReset (run es (AlarmClock d n f)) \<longrightarrow>
        \<not> reset_stored (cpc (run es (AlarmClock d n f)) c)) \<and>
     (wpc (run es (AlarmClock d n f)) = W_Parked \<and> mReset (run es (AlarmClock d n f)) \<longrightarrow>
        notifier_pending (run es (AlarmClock d n f)))"
proof (rule protocol_run)
  show "mutex_inv (AlarmClock d n f) \<and>
     (\<forall>c. \<not> mReset (AlarmClock d n f) \<longrightarrow> \<not> reset_stored (cpc (AlarmClock d n f) c)) \<and>
     (wpc (AlarmClock d n f) = W_Parked \<and> mReset (AlarmClock d n f) \<longrightarrow>
        notifier_pending (AlarmClock d n f))"
    using mutex_inv_init [of d n f] by (simp add: AlarmClock_def)
qed

lemma notifier_pendingD:
  "notifier_pending s \<Longrightarrow>
     \<exists>c. mMutex s = Some (Caller c) \<and> (cpc s c = R_Zero \<or> cpc s c = R_Notify)"
  by (auto simp add: notifier_pending_def split: option.splits tid.splits)

text \<open>
  C9: \<open>Reset\<close> stores the flag and notifies while it owns the mutex (in every reachable
  state a caller past line 47 owns the mutex and the flag is set), and line 54 leaves no
  worker parked. Once set, the flag stays set along every schedule in which the worker does
  not execute line 94, so the worker's next check reads it: the check in \<open>SleepUs\<close> returns
  1 and the check at line 86 skips the wait. The store at line 94, the only step that
  consumes the flag, is followed by a new countdown (or by the exit). And in no reachable
  state is the worker parked with the flag set unless a caller that owns the mutex has yet
  to notify.
\<close>

theorem no_missed_reset:
  "(reset_stored (cpc (run es (AlarmClock d n f)) c) \<longrightarrow>
      mMutex (run es (AlarmClock d n f)) = Some (Caller c) \<and> mReset (run es (AlarmClock d n f))) \<and>
   (cpc y c1 = R_Notify \<longrightarrow> wpc (after (Advance c1) y) \<noteq> W_Parked) \<and>
   (mReset s \<and> never worker_clear es1 s \<longrightarrow> mReset (run es1 s)) \<and>
   (mReset a \<and> wpc a = W_SleepUs LoadReset t i \<longrightarrow> wpc (after WorkerStep a) = W_Ret 1) \<and>
   (mReset b \<and> wpc b = W_Check \<longrightarrow> wpc (after WorkerStep b) = W_Clear) \<and>
   (wpc k = W_Clear \<longrightarrow>
      \<not> mReset (after WorkerStep k) \<and>
      wpc (run [WorkerStep, WorkerStep, WorkerStep] k) = (if mExit k then W_Done else W_Call)) \<and>
   (wpc (run es (AlarmClock d n f)) = W_Parked \<and> mReset (run es (AlarmClock d n f)) \<longrightarrow>
      (\<exists>c'. mMutex (run es (AlarmClock d n f)) = Some (Caller c') \<and>
         (cpc (run es (AlarmClock d n f)) c' = R_Zero \<or>
          cpc (run es (AlarmClock d n f)) c' = R_Notify)))"
proof -
  let ?r = "run es (AlarmClock d n f)"
  have a: "reset_stored (cpc ?r c) \<longrightarrow> mMutex ?r = Some (Caller c) \<and> mReset ?r"
    using protocol_reachable [of es d n f] caller_holds_mutex [of es d n f c]
      reset_stored_body [of "cpc ?r c"]
    by blast
  have b: "cpc y c1 = R_Notify \<longrightarrow> wpc (after (Advance c1) y) \<noteq> W_Parked"
    by (simp add: after_def advance_def Reset_def)
  have c: "mReset s \<and> never worker_clear es1 s \<longrightarrow> mReset (run es1 s)"
    using no_clear_run [of s es1] by blast
  have d: "mReset a \<and> wpc a = W_SleepUs LoadReset t i \<longrightarrow> wpc (after WorkerStep a) = W_Ret 1"
    by (simp add: after_def AlarmClockInterruptableThread_def SleepUs_def)
  have e: "mReset b \<and> wpc b = W_Check \<longrightarrow> wpc (after WorkerStep b) = W_Clear"
    by (simp add: after_def AlarmClockInterruptableThread_def)
  have g: "wpc k = W_Clear \<longrightarrow>
      \<not> mReset (after WorkerStep k) \<and>
      wpc (run [WorkerStep, WorkerStep, WorkerStep] k) = (if mExit k then W_Done else W_Call)"
    by (simp add: after_def AlarmClockInterruptableThread_def)
  have f: "wpc ?r = W_Parked \<and> mReset ?r \<longrightarrow>
      (\<exists>c'. mMutex ?r = Some (Caller c') \<and> (cpc ?r c' = R_Zero \<or> cpc ?r c' = R_Notify))"
    using protocol_reachable [of es d n f] notifier_pendingD [of ?r] by blast
  from a b c d e f g show ?thesis by blast
qed

text \<open>
  The witness: a reset that arrives while the worker of a 1-microsecond clock is parked
  (the caller holds the mutex with the flag set until it has notified), and a reset that
  arrives before the worker of a 3-microsecond clock starts to sleep (the flag stays set
  until the check in \<open>SleepUs\<close>, which returns 1, and until the check at line 86, which
  skips the wait; the worker then clears it and starts a new countdown).
\<close>

theorem no_missed_reset_witness:
  "wpc (run [Invoke 0 CallReset, Advance 0, Advance 0, Advance 0]
         (run [WorkerStep, WorkerStep, WorkerStep, WorkerStep, WorkerStep]
           (AlarmClock Microseconds 1 None))) = W_Parked \<and>
   cpc (run [Invoke 0 CallReset, Advance 0, Advance 0, Advance 0]
         (run [WorkerStep, WorkerStep, WorkerStep, WorkerStep, WorkerStep]
           (AlarmClock Microseconds 1 None))) 0 = R_Notify \<and>
   mReset (run [Invoke 0 CallReset, Advance 0, Advance 0, Advance 0]
         (run [WorkerStep, WorkerStep, WorkerStep, WorkerStep, WorkerStep]
           (AlarmClock Microseconds 1 None))) \<and>
   mMutex (run [Invoke 0 CallReset, Advance 0, Advance 0, Advance 0]
         (run [WorkerStep, WorkerStep, WorkerStep, WorkerStep, WorkerStep]
           (AlarmClock Microseconds 1 None))) = Some (Caller 0) \<and>
   wpc (run [Invoke 0 CallReset, Advance 0, Advance 0, Advance 0, Advance 0]
         (run [WorkerStep, WorkerStep, WorkerStep, WorkerStep, WorkerStep]
           (AlarmClock Microseconds 1 None))) = W_Woken \<and>
   mReset (run [Invoke 0 CallReset, Advance 0, Advance 0, Advance 0, Advance 0, Advance 0]
         (AlarmClock Microseconds 3 None)) \<and>
   never worker_clear [WorkerStep, WorkerStep, WorkerStep, WorkerStep, WorkerStep, WorkerStep]
     (run [Invoke 0 CallReset, Advance 0, Advance 0, Advance 0, Advance 0, Advance 0]
         (AlarmClock Microseconds 3 None)) \<and>
   wpc (run [WorkerStep, WorkerStep, WorkerStep]
     (run [Invoke 0 CallReset, Advance 0, Advance 0, Advance 0, Advance 0, Advance 0]
         (AlarmClock Microseconds 3 None))) = W_SleepUs LoadReset 3 1 \<and>
   wpc (run [WorkerStep, WorkerStep, WorkerStep, WorkerStep]
     (run [Invoke 0 CallReset, Advance 0, Advance 0, Advance 0, Advance 0, Advance 0]
         (AlarmClock Microseconds 3 None))) = W_Ret 1 \<and>
   wpc (run [WorkerStep, WorkerStep, WorkerStep, WorkerStep, WorkerStep, WorkerStep]
     (run [Invoke 0 CallReset, Advance 0, Advance 0, Advance 0, Advance 0, Advance 0]
         (AlarmClock Microseconds 3 None))) = W_Check \<and>
   mReset (run [WorkerStep, WorkerStep, WorkerStep, WorkerStep, WorkerStep, WorkerStep]
     (run [Invoke 0 CallReset, Advance 0, Advance 0, Advance 0, Advance 0, Advance 0]
         (AlarmClock Microseconds 3 None))) \<and>
   wpc (run [WorkerStep, WorkerStep, WorkerStep, WorkerStep, WorkerStep, WorkerStep, WorkerStep]
     (run [Invoke 0 CallReset, Advance 0, Advance 0, Advance 0, Advance 0, Advance 0]
         (AlarmClock Microseconds 3 None))) = W_Clear \<and>
   \<not> mReset (run [WorkerStep, WorkerStep, WorkerStep, WorkerStep, WorkerStep, WorkerStep,
              WorkerStep, WorkerStep]
     (run [Invoke 0 CallReset, Advance 0, Advance 0, Advance 0, Advance 0, Advance 0]
         (AlarmClock Microseconds 3 None))) \<and>
   wpc (run [WorkerStep, WorkerStep, WorkerStep, WorkerStep, WorkerStep, WorkerStep,
              WorkerStep, WorkerStep, WorkerStep, WorkerStep]
     (run [Invoke 0 CallReset, Advance 0, Advance 0, Advance 0, Advance 0, Advance 0]
         (AlarmClock Microseconds 3 None))) = W_Call"
proof -
  let ?p = "run [WorkerStep, WorkerStep, WorkerStep, WorkerStep, WorkerStep]
      (AlarmClock Microseconds 1 None)"
  let ?y = "run [Invoke 0 CallReset, Advance 0, Advance 0, Advance 0] ?p"
  let ?s = "run [Invoke 0 CallReset, Advance 0, Advance 0, Advance 0, Advance 0, Advance 0]
      (AlarmClock Microseconds 3 None)"
  let ?a = "run [WorkerStep, WorkerStep, WorkerStep] ?s"
  let ?b = "run [WorkerStep, WorkerStep, WorkerStep, WorkerStep, WorkerStep, WorkerStep] ?s"
  let ?k = "after WorkerStep ?b"
  note w = no_missed_reset [where es = "[WorkerStep, WorkerStep, WorkerStep, WorkerStep,
        WorkerStep, Invoke 0 CallReset, Advance 0, Advance 0, Advance 0]"
      and d = Microseconds and n = 1 and f = None and c = 0 and y = ?y and ?c1.0 = 0
      and s = ?s
      and ?es1.0 = "[WorkerStep, WorkerStep, WorkerStep, WorkerStep, WorkerStep, WorkerStep]"
      and a = ?a and t = 3 and i = 1 and b = ?b and k = ?k]
  show ?thesis
    using w by (simp add: step_defs init_defs worker_clear_def)
qed

section \<open>Teardown\<close>

lemma parked_blocked: "wpc s = W_Parked \<Longrightarrow> exec WorkerStep s = None"
  by (simp add: AlarmClockInterruptableThread_def)

lemma join_blocked: "cpc s c = D_Join \<Longrightarrow> wpc s \<noteq> W_Done \<Longrightarrow> exec (Advance c) s = None"
  by (simp add: advance_def Destructor_def StopBackgroundThread_def)

lemma idle_blocked: "cpc s c = Idle \<Longrightarrow> exec (Advance c) s = None"
  by (simp add: advance_def)

lemma stuck_run:
  assumes "exec WorkerStep s = None" and "\<And>c. exec (Advance c) s = None"
  shows "run (map thread_event ts) s = s"
proof (induction ts)
  case Nil
  show ?case by simp
next
  case (Cons t ts)
  have "after (thread_event t) s = s"
    using assms by (cases t) (simp_all add: after_def thread_event_def)
  with Cons show ?case by simp
qed

text \<open>
  The worker parked, one caller inside \<open>join\<close>, every other caller idle: no thread can
  move, whatever the schedule. Only a new call of \<open>Reset\<close> or a spurious wake-up, neither
  of which the destructor provides, would let the worker go on.
\<close>

lemma parked_join_stuck:
  assumes "wpc s = W_Parked" and "cpc s c = D_Join" and "\<And>c'. c' \<noteq> c \<Longrightarrow> cpc s c' = Idle"
  shows "run (map thread_event ts) s = s"
proof (rule stuck_run)
  show "exec WorkerStep s = None" using assms(1) by (rule parked_blocked)
next
  fix c'
  show "exec (Advance c') s = None"
  proof (cases "c' = c")
    case True
    from assms(2) True have "cpc s c' = D_Join" by simp
    moreover from assms(1) have "wpc s \<noteq> W_Done" by simp
    ultimately show ?thesis by (rule join_blocked)
  next
    case False
    then have "cpc s c' = Idle" by (rule assms(3))
    then show ?thesis by (rule idle_blocked)
  qed
qed

text \<open>
  C1 (the code on the failing teardown): whenever the worker is parked at line 92, the
  thread is joinable and no caller is inside a member function, a caller that destroys the
  object stores \<open>mExit\<close> and enters \<open>join\<close>, but nothing on its path notifies
  \<open>mCondition\<close>: the worker stays parked, no step of the worker or of any caller is
  enabled, and along every schedule of thread steps the state never changes, so the
  destructor never returns.
\<close>

theorem teardown_deadlocks_with_parked_worker:
  assumes "wpc s = W_Parked" and "\<forall>c'. cpc s c' = Idle" and "joinable s"
  shows "mExit (run [Invoke c CallDestructor, Advance c, Advance c] s) \<and>
         wpc (run [Invoke c CallDestructor, Advance c, Advance c] s) = W_Parked \<and>
         cpc (run [Invoke c CallDestructor, Advance c, Advance c] s) c = D_Join \<and>
         exec WorkerStep (run [Invoke c CallDestructor, Advance c, Advance c] s) = None \<and>
         (\<forall>c'. exec (Advance c') (run [Invoke c CallDestructor, Advance c, Advance c] s) = None) \<and>
         (\<forall>ts. run (map thread_event ts) (run [Invoke c CallDestructor, Advance c, Advance c] s)
            = run [Invoke c CallDestructor, Advance c, Advance c] s)"
proof -
  let ?d = "run [Invoke c CallDestructor, Advance c, Advance c] s"
  from assms(2) have idle: "cpc s c' = Idle" for c' by simp
  have x: "mExit ?d" and w: "wpc ?d = W_Parked" and j: "cpc ?d c = D_Join"
    using assms(1,3) idle [of c]
    by (simp_all add: after_def invoke_def advance_def Destructor_def StopBackgroundThread_def)
  have i: "cpc ?d c' = Idle" if "c' \<noteq> c" for c'
    using that assms(1,3) idle [of c] idle [of c']
    by (simp add: after_def invoke_def advance_def Destructor_def StopBackgroundThread_def)
  have b: "exec WorkerStep ?d = None" using w by (rule parked_blocked)
  have r: "run (map thread_event ts) ?d = ?d" for ts
    using w j i by (rule parked_join_stuck)
  have n: "wpc ?d \<noteq> W_Done" using w by simp
  have a: "exec (Advance c') ?d = None" for c'
  proof (cases "c' = c")
    case True
    have "exec (Advance c) ?d = None" using j n by (rule join_blocked)
    with True show ?thesis by (simp only:)
  next
    case False
    from i [OF False] show ?thesis by (rule idle_blocked)
  qed
  show ?thesis
    by (intro conjI allI) (fact x w j a b r)+
qed

text \<open>
  The witness: a 1-microsecond clock expires and its worker parks (five worker steps); then
  caller 0 destroys it and stays inside \<open>join\<close> however the threads are scheduled.
\<close>

theorem teardown_deadlocks_with_parked_worker_witness:
  "wpc (run [WorkerStep, WorkerStep, WorkerStep, WorkerStep, WorkerStep]
         (AlarmClock Microseconds 1 None)) = W_Parked \<and>
   fst (Expired (run [WorkerStep, WorkerStep, WorkerStep, WorkerStep, WorkerStep]
         (AlarmClock Microseconds 1 None))) \<and>
   mExit (run [WorkerStep, WorkerStep, WorkerStep, WorkerStep, WorkerStep,
               Invoke 0 CallDestructor, Advance 0, Advance 0]
         (AlarmClock Microseconds 1 None)) \<and>
   cpc (run [WorkerStep, WorkerStep, WorkerStep, WorkerStep, WorkerStep,
               Invoke 0 CallDestructor, Advance 0, Advance 0]
         (AlarmClock Microseconds 1 None)) 0 = D_Join \<and>
   cpc (run [WorkerStep, WorkerStep, WorkerStep, WorkerStep, WorkerStep,
               Invoke 0 CallDestructor, Advance 0, Advance 0, WorkerStep, Advance 0, Advance 1,
               WorkerStep, Advance 0]
         (AlarmClock Microseconds 1 None)) 0 = D_Join"
proof -
  let ?p = "run [WorkerStep, WorkerStep, WorkerStep, WorkerStep, WorkerStep]
         (AlarmClock Microseconds 1 None)"
  have p: "wpc ?p = W_Parked" "\<forall>c'. cpc ?p c' = Idle" "joinable ?p" "fst (Expired ?p)"
    by (simp_all add: step_defs init_defs)
  note w = teardown_deadlocks_with_parked_worker [OF p(1-3), of 0]
  let ?d = "run [Invoke 0 CallDestructor, Advance 0, Advance 0] ?p"
  from w have "run (map thread_event [None, Some 0, Some 1, None, Some 0]) ?d = ?d" by blast
  then have "cpc (run (map thread_event [None, Some 0, Some 1, None, Some 0]) ?d) 0 = cpc ?d 0"
    by (simp only:)
  with w p show ?thesis
    by (simp add: thread_event_def run_append [symmetric])
qed

section \<open>The default sleep strategy\<close>

lemma sint_of_nat_small:
  assumes "m < 2 ^ 31"
  shows "sint (of_nat m :: u32) = int m"
proof -
  have "sint (of_nat m :: u32) = signed_take_bit 31 (int m)"
    by (simp add: signed_of_nat)
  also have "\<dots> = int m"
    using assms by (intro signed_take_bit_int_eq_self) simp_all
  finally show ?thesis .
qed

lemma SleepUs_iteration:
  assumes "wpc s = W_SleepUs LoopTest t (of_nat m)" and "m < unat t" and "unat t < 2 ^ 31"
    and "\<not> mReset s" and "\<not> mExit s"
  shows "wpc (run [WorkerStep, WorkerStep, WorkerStep, WorkerStep] s)
           = W_SleepUs LoopTest t (of_nat (Suc m)) \<and>
         slept_us (run [WorkerStep, WorkerStep, WorkerStep, WorkerStep] s) = slept_us s + 1 \<and>
         \<not> mReset (run [WorkerStep, WorkerStep, WorkerStep, WorkerStep] s) \<and>
         \<not> mExit (run [WorkerStep, WorkerStep, WorkerStep, WorkerStep] s)"
proof -
  from assms(2,3) have m: "m < 2 ^ 31" by simp
  then have sm: "sint (of_nat m :: u32) = int m" by (rule sint_of_nat_small)
  have ut: "uint t = int (unat t)" by (rule uint_nat)
  from assms(2) have lt: "sint (of_nat m :: u32) < uint t" unfolding sm ut by linarith
  from assms(2,3) have "m < 2147483647" by simp
  then have ne: "sint (of_nat m :: u32) \<noteq> 2147483647" unfolding sm by linarith
  let ?a = "after WorkerStep s"
  have a: "?a = s\<lparr>wpc := W_SleepUs SleepFor t (of_nat m)\<rparr>"
    using assms(1) lt by (simp add: after_def AlarmClockInterruptableThread_def SleepUs_def)
  let ?b = "after WorkerStep ?a"
  have b: "?b = s\<lparr>slept_us := slept_us s + 1, wpc := W_SleepUs LoadReset t (of_nat m)\<rparr>"
    unfolding a by (simp add: after_def AlarmClockInterruptableThread_def SleepUs_def)
  let ?c = "after WorkerStep ?b"
  have c: "?c = s\<lparr>slept_us := slept_us s + 1, wpc := W_SleepUs LoadExit t (of_nat m)\<rparr>"
    unfolding b using assms(4)
    by (simp add: after_def AlarmClockInterruptableThread_def SleepUs_def)
  let ?d = "after WorkerStep ?c"
  have d: "?d = s\<lparr>slept_us := slept_us s + 1, wpc := W_SleepUs LoopTest t (of_nat m + 1)\<rparr>"
    unfolding c using assms(5) ne
    by (simp add: after_def AlarmClockInterruptableThread_def SleepUs_def)
  have "run [WorkerStep, WorkerStep, WorkerStep, WorkerStep] s = ?d" by simp
  then show ?thesis
    unfolding d using assms(4,5) by simp
qed

lemma SleepUs_loop:
  assumes "unat t < 2 ^ 31"
  shows "wpc s = W_SleepUs LoopTest t (of_nat m) \<Longrightarrow> m + k \<le> unat t \<Longrightarrow>
         \<not> mReset s \<Longrightarrow> \<not> mExit s \<Longrightarrow>
         wpc (run (replicate (4 * k) WorkerStep) s) = W_SleepUs LoopTest t (of_nat (m + k)) \<and>
         slept_us (run (replicate (4 * k) WorkerStep) s) = slept_us s + k \<and>
         \<not> mReset (run (replicate (4 * k) WorkerStep) s) \<and>
         \<not> mExit (run (replicate (4 * k) WorkerStep) s)"
proof (induction k arbitrary: s m)
  case 0
  then show ?case by simp
next
  case (Suc k)
  let ?s1 = "run [WorkerStep, WorkerStep, WorkerStep, WorkerStep] s"
  from Suc.prems(2) have lt: "m < unat t" by simp
  note it = SleepUs_iteration [OF Suc.prems(1) lt assms Suc.prems(3,4)]
  from Suc.prems(2) have le: "Suc m + k \<le> unat t" by simp
  have ih: "wpc (run (replicate (4 * k) WorkerStep) ?s1)
           = W_SleepUs LoopTest t (of_nat (Suc m + k)) \<and>
         slept_us (run (replicate (4 * k) WorkerStep) ?s1) = slept_us ?s1 + k \<and>
         \<not> mReset (run (replicate (4 * k) WorkerStep) ?s1) \<and>
         \<not> mExit (run (replicate (4 * k) WorkerStep) ?s1)"
    using Suc.IH [of ?s1 "Suc m"] it le by blast
  have "replicate (4 * Suc k) WorkerStep
      = replicate 4 WorkerStep @ replicate (4 * k) WorkerStep"
    by (simp add: replicate_add [symmetric])
  also have "replicate 4 WorkerStep = [WorkerStep, WorkerStep, WorkerStep, WorkerStep]"
    by (simp add: numeral_eq_Suc)
  finally have "run (replicate (4 * Suc k) WorkerStep) s
      = run (replicate (4 * k) WorkerStep) ?s1"
    by (simp only: run_append)
  with ih it show ?case by simp
qed

lemma SleepUs_completes:
  assumes "mSleepFunction s = BoundSleepUs" and "wpc s = W_Call"
    and "0 < unat (kSleepTimeUsCount s)" and "unat (kSleepTimeUsCount s) < 2 ^ 31"
    and "\<not> mReset s" and "\<not> mExit s"
  shows "wpc (run (replicate (4 * (unat (kSleepTimeUsCount s) - 1) + 2) WorkerStep) s) = W_Ret 0 \<and>
         slept_us (run (replicate (4 * (unat (kSleepTimeUsCount s) - 1) + 2) WorkerStep) s)
           = slept_us s + (unat (kSleepTimeUsCount s) - 1)"
proof -
  let ?t = "kSleepTimeUsCount s"
  let ?k = "unat ?t - 1"
  let ?s1 = "run [WorkerStep] s"
  let ?s2 = "run (replicate (4 * ?k) WorkerStep) ?s1"
  have s1: "wpc ?s1 = W_SleepUs LoopTest ?t (of_nat 1)" "slept_us ?s1 = slept_us s"
    "\<not> mReset ?s1" "\<not> mExit ?s1"
    using assms(1,2,5,6) by (simp_all add: after_def AlarmClockInterruptableThread_def)
  from assms(3) have le: "1 + ?k \<le> unat ?t" by simp
  note lp = SleepUs_loop [OF assms(4) s1(1) le s1(3,4)]
  from assms(3) have "1 + ?k = unat ?t" by simp
  then have tk: "(of_nat (1 + ?k) :: u32) = ?t" by (simp only: of_nat_unat) simp
  have "sint ?t = uint ?t"
    using sint_of_nat_small [OF assms(4)] by simp
  then have nl: "\<not> sint ?t < uint ?t" by simp
  from lp tk have w2: "wpc ?s2 = W_SleepUs LoopTest ?t ?t" by simp
  have s3: "wpc (run [WorkerStep] ?s2) = W_Ret 0" "slept_us (run [WorkerStep] ?s2) = slept_us ?s2"
    using w2 nl by (simp_all add: after_def AlarmClockInterruptableThread_def SleepUs_def)
  have "replicate (4 * ?k + 2) WorkerStep
      = replicate 1 WorkerStep @ replicate (4 * ?k) WorkerStep @ replicate 1 WorkerStep"
    by (simp only: replicate_add [symmetric]) simp
  then have "run (replicate (4 * ?k + 2) WorkerStep) s = run [WorkerStep] ?s2"
    by (simp add: run_append)
  with s3 lp s1(2) show ?thesis by simp
qed

text \<open>
  C2 (the code on the failing durations): the loop of \<open>SleepUs\<close> starts at \<open>i = 1\<close> and
  runs while \<open>i < t\<close>. For every \<open>t\<close> from 1 to \<open>INT_MAX\<close>, with neither flag set,
  the worker alone returns 0 from \<open>SleepUs(t)\<close> after exactly \<open>t - 1\<close> sleeps of one
  microsecond; and for \<open>t \<le> 1\<close> it returns 0 at once, without sleeping and without
  reading either flag, whatever their values.
\<close>

theorem SleepUs_one_increment_short:
  "(mSleepFunction s = BoundSleepUs \<and> wpc s = W_Call \<and>
    0 < unat (kSleepTimeUsCount s) \<and> unat (kSleepTimeUsCount s) < 2 ^ 31 \<and>
    \<not> mReset s \<and> \<not> mExit s \<longrightarrow>
      wpc (run (replicate (4 * (unat (kSleepTimeUsCount s) - 1) + 2) WorkerStep) s) = W_Ret 0 \<and>
      slept_us (run (replicate (4 * (unat (kSleepTimeUsCount s) - 1) + 2) WorkerStep) s)
        = slept_us s + (unat (kSleepTimeUsCount s) - 1)) \<and>
   (mSleepFunction z = BoundSleepUs \<and> wpc z = W_Call \<and> unat (kSleepTimeUsCount z) \<le> 1 \<longrightarrow>
      wpc (run [WorkerStep, WorkerStep] z) = W_Ret 0 \<and>
      slept_us (run [WorkerStep, WorkerStep] z) = slept_us z)"
proof -
  have "\<not> sint (1 :: u32) < uint (kSleepTimeUsCount z)" if "unat (kSleepTimeUsCount z) \<le> 1"
  proof -
    have "uint (kSleepTimeUsCount z) = int (unat (kSleepTimeUsCount z))" by (rule uint_nat)
    with that have "uint (kSleepTimeUsCount z) \<le> 1" by linarith
    then show ?thesis by simp
  qed
  then have b: "mSleepFunction z = BoundSleepUs \<and> wpc z = W_Call \<and>
      unat (kSleepTimeUsCount z) \<le> 1 \<longrightarrow>
      wpc (run [WorkerStep, WorkerStep] z) = W_Ret 0 \<and>
      slept_us (run [WorkerStep, WorkerStep] z) = slept_us z"
    by (simp add: after_def AlarmClockInterruptableThread_def SleepUs_def)
  from b SleepUs_completes [of s] show ?thesis by blast
qed

text \<open>
  The witness: \<open>SleepUs(1)\<close> returns 0 after no sleep, also when \<open>mExit\<close> is already
  set; \<open>SleepUs(3)\<close> returns 0 after two sleeps.
\<close>

theorem SleepUs_one_increment_short_witness:
  "wpc (run [WorkerStep, WorkerStep] (AlarmClock Microseconds 1 None)) = W_Ret 0 \<and>
   slept_us (run [WorkerStep, WorkerStep] (AlarmClock Microseconds 1 None)) = 0 \<and>
   mExit (run [Invoke 0 CallDestructor, Advance 0] (AlarmClock Microseconds 1 None)) \<and>
   wpc (run [WorkerStep, WorkerStep]
     (run [Invoke 0 CallDestructor, Advance 0] (AlarmClock Microseconds 1 None))) = W_Ret 0 \<and>
   wpc (run (replicate 10 WorkerStep) (AlarmClock Microseconds 3 None)) = W_Ret 0 \<and>
   slept_us (run (replicate 10 WorkerStep) (AlarmClock Microseconds 3 None)) = 2"
proof -
  let ?x = "run [Invoke 0 CallDestructor, Advance 0] (AlarmClock Microseconds 1 None)"
  have x: "mExit ?x" "mSleepFunction ?x = BoundSleepUs" "wpc ?x = W_Call"
    "kSleepTimeUsCount ?x = 1"
    by (simp_all add: step_defs init_defs)
  note w1 = SleepUs_one_increment_short [of "AlarmClock Microseconds 3 None" "AlarmClock Microseconds 1 None"]
  note w2 = SleepUs_one_increment_short [of "AlarmClock Microseconds 3 None" ?x]
  from w2 x have "wpc (run [WorkerStep, WorkerStep] ?x) = W_Ret 0" by simp
  with w1 x(1) show ?thesis by (simp add: init_defs)
qed

end
